theory Spec2Isabelle
  imports Complex_Main "HOL-Library.Log_Nat"
begin

section \<open>Python numbers\<close>

text \<open>
  \<^verbatim>\<open>calculate_bill\<close> computes with Python \<^verbatim>\<open>float\<close>s (IEEE 754 binary64) and with
  Python's unbounded \<^verbatim>\<open>int\<close>s (the slab limits). A finite float is modelled by the rational
  number it denotes; the two zeros are identified, which no operation used by the program
  can tell apart (\<^verbatim>\<open>==\<close>, \<^verbatim>\<open><\<close>, \<^verbatim>\<open><=\<close>, \<^verbatim>\<open>+\<close>, \<^verbatim>\<open>-\<close>, \<^verbatim>\<open>*\<close>, \<^verbatim>\<open>/ 100.0\<close>, \<^verbatim>\<open>round\<close>).
\<close>

datatype pyfloat = Fin rat | PInf | NInf | NaN

datatype pynum = PyInt int | PyFloat pyfloat

datatype py_error = OverflowError | ValueError

text \<open>\<open>ilog2 x\<close> is the binary exponent of a positive rational: \<open>2^e \<le> x < 2^(e+1)\<close>.\<close>

definition ilog2 :: "rat \<Rightarrow> int" where
  "ilog2 x = (let (p, q) = quotient_of x; d = bitlen p - bitlen q
              in if 2 powi d \<le> x then d else d - 1)"

text \<open>Rounding to the nearest integer, ties to the even one.\<close>

definition rhe :: "rat \<Rightarrow> int" where
  "rhe x = (let f = \<lfloor>x\<rfloor>; d = x - of_int f
            in if d < 1/2 then f else if 1/2 < d then f + 1
               else if even f then f else f + 1)"

text \<open>
  The spacing of the binary64 numbers around \<open>x\<close>: 53 significant bits, and
  \<open>2^-1074\<close> below the smallest normal number \<open>2^-1022\<close>.
\<close>

definition quantum :: "rat \<Rightarrow> rat" where
  "quantum x = 2 powi (max (ilog2 \<bar>x\<bar>) (- 1022) - 52)"

text \<open>
  \<open>fl\<close> rounds an exact result to binary64, to nearest with ties to even; a result that
  rounds to \<open>2^1024\<close> or beyond overflows to an infinity.
\<close>

definition fl :: "rat \<Rightarrow> pyfloat" where
  "fl x = (if x = 0 then Fin 0
           else let q = quantum x; y = q * of_int (rhe (\<bar>x\<bar> / q))
                in if 2 ^ 1024 \<le> y then (if 0 < x then PInf else NInf)
                   else Fin (if 0 < x then y else - y))"

text \<open>The binary exponent that fixes the spacing, and the rounded magnitude.\<close>

definition bexp :: "rat \<Rightarrow> int" where
  "bexp x = max (ilog2 \<bar>x\<bar>) (- 1022)"

definition rnd :: "rat \<Rightarrow> rat" where
  "rnd x = quantum x * of_int (rhe (\<bar>x\<bar> / quantum x))"

definition is_double :: "rat \<Rightarrow> bool" where
  "is_double x = (fl x = Fin x)"

fun fneg :: "pyfloat \<Rightarrow> pyfloat" where
  "fneg (Fin a) = Fin (- a)"
| "fneg PInf = NInf"
| "fneg NInf = PInf"
| "fneg NaN = NaN"

fun fadd :: "pyfloat \<Rightarrow> pyfloat \<Rightarrow> pyfloat" where
  "fadd (Fin a) (Fin b) = fl (a + b)"
| "fadd NaN _ = NaN"
| "fadd _ NaN = NaN"
| "fadd PInf NInf = NaN"
| "fadd NInf PInf = NaN"
| "fadd PInf _ = PInf"
| "fadd NInf _ = NInf"
| "fadd _ PInf = PInf"
| "fadd _ NInf = NInf"

definition fsub :: "pyfloat \<Rightarrow> pyfloat \<Rightarrow> pyfloat" where
  "fsub a b = fadd a (fneg b)"

fun fmul :: "pyfloat \<Rightarrow> pyfloat \<Rightarrow> pyfloat" where
  "fmul (Fin a) (Fin b) = fl (a * b)"
| "fmul NaN _ = NaN"
| "fmul _ NaN = NaN"
| "fmul (Fin a) PInf = (if a = 0 then NaN else if 0 < a then PInf else NInf)"
| "fmul (Fin a) NInf = (if a = 0 then NaN else if 0 < a then NInf else PInf)"
| "fmul PInf (Fin b) = (if b = 0 then NaN else if 0 < b then PInf else NInf)"
| "fmul NInf (Fin b) = (if b = 0 then NaN else if 0 < b then NInf else PInf)"
| "fmul PInf PInf = PInf"
| "fmul PInf NInf = NInf"
| "fmul NInf PInf = NInf"
| "fmul NInf NInf = PInf"

text \<open>The expression \<^verbatim>\<open>x / 100.0\<close>.\<close>

fun fdiv_100 :: "pyfloat \<Rightarrow> pyfloat" where
  "fdiv_100 (Fin a) = fl (a / 100)"
| "fdiv_100 x = x"

text \<open>
  \<^verbatim>\<open>round(x, 2)\<close> on a float: the decimal with two fractional digits nearest to the exact
  value of \<open>x\<close> (ties to the even digit), converted back to the nearest float; infinities
  and NaN round to themselves.
\<close>

fun round2 :: "pyfloat \<Rightarrow> pyfloat" where
  "round2 (Fin a) = fl (of_int (rhe (100 * a)) / 100)"
| "round2 x = x"

text \<open>Comparisons; a float and an int are compared by their exact values.\<close>

fun int_lt_float :: "int \<Rightarrow> pyfloat \<Rightarrow> bool" where
  "int_lt_float c (Fin a) = (of_int c < a)"
| "int_lt_float c PInf = True"
| "int_lt_float c NInf = False"
| "int_lt_float c NaN = False"

fun gt_0 :: "pynum \<Rightarrow> bool" where
  "gt_0 (PyInt c) = (0 < c)"
| "gt_0 (PyFloat (Fin a)) = (0 < a)"
| "gt_0 (PyFloat PInf) = True"
| "gt_0 (PyFloat NInf) = False"
| "gt_0 (PyFloat NaN) = False"

fun le_0 :: "pyfloat \<Rightarrow> bool" where
  "le_0 (Fin a) = (a \<le> 0)"
| "le_0 PInf = False"
| "le_0 NInf = True"
| "le_0 NaN = False"

fun fle :: "pyfloat \<Rightarrow> pyfloat \<Rightarrow> bool" where
  "fle (Fin a) (Fin b) = (a \<le> b)"
| "fle NaN _ = False"
| "fle _ NaN = False"
| "fle NInf _ = True"
| "fle _ PInf = True"
| "fle PInf _ = False"
| "fle _ NInf = False"

text \<open>
  \<^verbatim>\<open>min(remaining, slab_capacity)\<close> returns its first argument unless the second is
  smaller; \<^verbatim>\<open>max(0, m)\<close> returns the int \<open>0\<close> unless \<open>m\<close> is greater.
\<close>

definition py_min :: "pyfloat \<Rightarrow> int \<Rightarrow> pynum" where
  "py_min remaining slab_capacity =
     (if int_lt_float slab_capacity remaining then PyInt slab_capacity else PyFloat remaining)"

definition py_max_0 :: "pynum \<Rightarrow> pynum" where
  "py_max_0 m = (if gt_0 m then m else PyInt 0)"

text \<open>
  An int operand of a float operation is converted to float first; the conversion rounds
  like \<open>fl\<close> and raises \<^verbatim>\<open>OverflowError\<close> where \<open>fl\<close> overflows.
\<close>

fun to_float :: "pynum \<Rightarrow> py_error + pyfloat" where
  "to_float (PyFloat a) = Inr a"
| "to_float (PyInt c) = (case fl (of_int c) of Fin y \<Rightarrow> Inr (Fin y) | _ \<Rightarrow> Inl OverflowError)"

text \<open>
  The decimal digits of an int, for the \<^verbatim>\<open>slab_range\<close> label. CPython refuses to
  convert an int of more than \<^verbatim>\<open>sys.int_max_str_digits\<close> digits (4300 by default) to
  \<^verbatim>\<open>str\<close> and raises \<^verbatim>\<open>ValueError\<close>.
\<close>

definition int_max_str_digits :: nat where
  "int_max_str_digits = 4300"

fun str_nat :: "nat \<Rightarrow> string" where
  "str_nat n = (if n < 10 then [''0123456789'' ! n]
                else str_nat (n div 10) @ [''0123456789'' ! (n mod 10)])"

declare str_nat.simps [simp del]

definition int_digits :: "int \<Rightarrow> string" where
  "int_digits i = (if i < 0 then CHR ''-'' # str_nat (nat (- i)) else str_nat (nat i))"

definition str_int :: "int \<Rightarrow> py_error + string" where
  "str_int i =
     (if 10 ^ int_max_str_digits \<le> \<bar>i\<bar> then Inl ValueError else Inr (int_digits i))"

section \<open>The bill calculator\<close>

record slab =
  upto :: int
  rate :: pyfloat

record slab_detail =
  det_slab_range :: string
  det_units :: pynum
  det_rate :: pyfloat
  det_charge :: pyfloat

record bill =
  bill_units :: pyfloat
  bill_slab_details :: "slab_detail list"
  bill_energy_charge :: pyfloat
  bill_fixed_charge :: pyfloat
  bill_duty_pct :: pyfloat
  bill_duty :: pyfloat
  bill_gst_pct :: pyfloat
  bill_gst :: pyfloat
  bill_subtotal :: pyfloat
  bill_total_bill :: pyfloat

text \<open>The quantity a slab takes (the \<^verbatim>\<open>if slab.upto == 0 ... else ...\<close> of the loop body).\<close>

definition units_in_slab :: "slab \<Rightarrow> pyfloat \<Rightarrow> int \<Rightarrow> pynum" where
  "units_in_slab slab remaining prev_limit =
     (if upto slab = 0 then py_max_0 (PyFloat remaining)
      else let slab_capacity = upto slab - prev_limit
           in py_max_0 (py_min remaining slab_capacity))"

text \<open>
  The label of a record: \<^verbatim>\<open>prev_limit+1\<close>, a dash, and \<^verbatim>\<open>slab.upto\<close> or the word
  \<^verbatim>\<open>above\<close>; the two fields are formatted from left to right.
\<close>

definition slab_range :: "slab \<Rightarrow> int \<Rightarrow> py_error + string" where
  "slab_range slab prev_limit =
     (case str_int (prev_limit + 1) of
        Inl e \<Rightarrow> Inl e
      | Inr lo \<Rightarrow>
         (if upto slab \<noteq> 0
          then (case str_int (upto slab) of
                  Inl e \<Rightarrow> Inl e
                | Inr hi \<Rightarrow> Inr (lo @ ''-'' @ hi))
          else Inr (lo @ ''-'' @ ''above'')))"

text \<open>
  The \<^verbatim>\<open>for slab in slabs\<close> loop, on the state \<open>remaining\<close>, \<open>energy_charge\<close>,
  \<open>slab_details\<close>, \<open>prev_limit\<close>; it returns the energy charge and the records. The
  charge is computed before the record is built, so an \<^verbatim>\<open>OverflowError\<close> of the product
  comes before a \<^verbatim>\<open>ValueError\<close> of the label.
\<close>

fun slab_loop ::
  "slab list \<Rightarrow> pyfloat \<Rightarrow> pyfloat \<Rightarrow> slab_detail list \<Rightarrow> int
     \<Rightarrow> py_error + (pyfloat \<times> slab_detail list)" where
  "slab_loop [] remaining energy_charge slab_details prev_limit =
     Inr (energy_charge, slab_details)"
| "slab_loop (slab # rest) remaining energy_charge slab_details prev_limit =
     (let units_in_slab = units_in_slab slab remaining prev_limit
      in case to_float units_in_slab of
           Inl e \<Rightarrow> Inl e
         | Inr u \<Rightarrow>
            (let charge = fmul u (rate slab)
             in case slab_range slab prev_limit of
                  Inl e \<Rightarrow> Inl e
                | Inr label \<Rightarrow>
                   (let slab_details = slab_details @
                          [\<lparr>det_slab_range = label,
                            det_units = units_in_slab,
                            det_rate = rate slab,
                            det_charge = round2 charge\<rparr>];
                        energy_charge = fadd energy_charge charge;
                        remaining = fsub remaining u;
                        prev_limit = upto slab
                    in if le_0 remaining then Inr (energy_charge, slab_details)
                       else slab_loop rest remaining energy_charge slab_details prev_limit)))"

definition calculate_bill ::
  "pyfloat \<Rightarrow> slab list \<Rightarrow> pyfloat \<Rightarrow> pyfloat \<Rightarrow> pyfloat \<Rightarrow> py_error + bill" where
  "calculate_bill units slabs fixed_charge duty_pct gst_pct =
     (case slab_loop slabs units (Fin 0) [] 0 of
        Inl e \<Rightarrow> Inl e
      | Inr (energy_charge, slab_details) \<Rightarrow>
         (let energy_charge = round2 energy_charge;
              duty = round2 (fmul (fdiv_100 duty_pct) energy_charge);
              subtotal = round2 (fadd (fadd energy_charge duty) fixed_charge);
              gst = round2 (fmul (fdiv_100 gst_pct) subtotal);
              total_bill = round2 (fadd subtotal gst)
          in Inr \<lparr>bill_units = units,
                  bill_slab_details = slab_details,
                  bill_energy_charge = energy_charge,
                  bill_fixed_charge = round2 fixed_charge,
                  bill_duty_pct = duty_pct,
                  bill_duty = duty,
                  bill_gst_pct = gst_pct,
                  bill_gst = gst,
                  bill_subtotal = subtotal,
                  bill_total_bill = total_bill\<rparr>))"

text \<open>The slabs that \<^verbatim>\<open>main\<close> offers as the default.\<close>

definition default_slabs :: "slab list" where
  "default_slabs =
     [\<lparr>upto = 100, rate = Fin 3\<rparr>, \<lparr>upto = 200, rate = Fin (9/2)\<rparr>,
      \<lparr>upto = 300, rate = Fin 6\<rparr>, \<lparr>upto = 0, rate = Fin 8\<rparr>]"

text \<open>
  The exact value of a recorded quantity (an int or a finite float), and the exact sum of
  the quantities a bill allocates to its slabs.
\<close>

fun exact_value :: "pynum \<Rightarrow> rat option" where
  "exact_value (PyInt c) = Some (of_int c)"
| "exact_value (PyFloat (Fin a)) = Some a"
| "exact_value (PyFloat _) = None"

fun sum_units :: "pynum list \<Rightarrow> rat option" where
  "sum_units [] = Some 0"
| "sum_units (n # ns) =
     (case exact_value n of
        None \<Rightarrow> None
      | Some v \<Rightarrow> (case sum_units ns of None \<Rightarrow> None | Some w \<Rightarrow> Some (v + w)))"

definition allocated_units :: "bill \<Rightarrow> rat option" where
  "allocated_units b = sum_units (map det_units (bill_slab_details b))"

text \<open>
  The values a Python float can have: a rational that is a binary64 number, an infinity or
  NaN; \<open>finite_float\<close> is \<^verbatim>\<open>math.isfinite\<close>.
\<close>

fun is_float :: "pyfloat \<Rightarrow> bool" where
  "is_float (Fin a) = is_double a"
| "is_float _ = True"

fun finite_float :: "pyfloat \<Rightarrow> bool" where
  "finite_float (Fin a) = True"
| "finite_float _ = False"

text \<open>
  Python's \<^verbatim>\<open>0 <= q\<close>, \<^verbatim>\<open>q <= k\<close> for an int \<open>k\<close> and \<^verbatim>\<open>q <= r\<close> for a float \<open>r\<close>, on a
  recorded quantity \<open>q\<close>; ints and floats are compared by their exact values.
\<close>

fun num_ge_0 :: "pynum \<Rightarrow> bool" where
  "num_ge_0 (PyInt c) = (0 \<le> c)"
| "num_ge_0 (PyFloat a) = fle (Fin 0) a"

fun num_le_int :: "pynum \<Rightarrow> int \<Rightarrow> bool" where
  "num_le_int (PyInt c) k = (c \<le> k)"
| "num_le_int (PyFloat (Fin a)) k = (a \<le> of_int k)"
| "num_le_int (PyFloat PInf) k = False"
| "num_le_int (PyFloat NInf) k = True"
| "num_le_int (PyFloat NaN) k = False"

fun num_le_float :: "pynum \<Rightarrow> pyfloat \<Rightarrow> bool" where
  "num_le_float (PyFloat a) r = fle a r"
| "num_le_float (PyInt c) (Fin b) = (of_int c \<le> b)"
| "num_le_float (PyInt c) PInf = True"
| "num_le_float (PyInt c) NInf = False"
| "num_le_float (PyInt c) NaN = False"

text \<open>
  A well-ordered slab list: the limits increase strictly, starting above \<open>prev_limit\<close>, and
  an unbounded slab can only be the last one.
\<close>

fun well_ordered :: "int \<Rightarrow> slab list \<Rightarrow> bool" where
  "well_ordered prev_limit [] = True"
| "well_ordered prev_limit (slab # rest) =
     (if upto slab = 0 then rest = []
      else prev_limit < upto slab \<and> well_ordered (upto slab) rest)"

text \<open>
  The slabs that the loop visits, each with the values of \<open>prev_limit\<close> and \<open>remaining\<close> at
  the start of its pass: the loop of \<open>slab_loop\<close> with the charges left out.
\<close>

fun slab_visits :: "slab list \<Rightarrow> pyfloat \<Rightarrow> int \<Rightarrow> (slab \<times> int \<times> pyfloat) list" where
  "slab_visits [] remaining prev_limit = []"
| "slab_visits (slab # rest) remaining prev_limit =
     (slab, prev_limit, remaining) #
     (case to_float (units_in_slab slab remaining prev_limit) of
        Inl e \<Rightarrow> []
      | Inr u \<Rightarrow>
         (let remaining = fsub remaining u
          in if le_0 remaining then [] else slab_visits rest remaining (upto slab)))"

text \<open>The capacities of bounded slabs: each limit minus the one before.\<close>

fun capacities :: "int \<Rightarrow> slab list \<Rightarrow> int list" where
  "capacities prev_limit [] = []"
| "capacities prev_limit (slab # rest) =
     (upto slab - prev_limit) # capacities (upto slab) rest"

text \<open>
  A finite float that is not negative, and the order \<open>0 \<le> x \<le> y\<close> on finite floats.
\<close>

fun nonneg_finite :: "pyfloat \<Rightarrow> bool" where
  "nonneg_finite (Fin a) = (0 \<le> a)"
| "nonneg_finite _ = False"

fun nonneg_le :: "pyfloat \<Rightarrow> pyfloat \<Rightarrow> bool" where
  "nonneg_le (Fin a) (Fin b) = (0 \<le> a \<and> a \<le> b)"
| "nonneg_le _ _ = False"

text \<open>
  What \<^verbatim>\<open>round(x, 2)\<close> has to deliver: \<open>n\<close> is a whole number of cents nearest to \<open>x\<close>,
  the even one when two are equally near, and \<open>y\<close> is the float nearest to \<open>n/100\<close>.
\<close>

definition rounded_to_cents :: "rat \<Rightarrow> int \<Rightarrow> rat \<Rightarrow> bool" where
  "rounded_to_cents x n y \<longleftrightarrow>
     \<bar>100 * x - of_int n\<bar> \<le> 1/2 \<and> (\<bar>100 * x - of_int n\<bar> = 1/2 \<longrightarrow> even n)
     \<and> fl (of_int n / 100) = Fin y"

section \<open>Rounding: basic facts\<close>

lemma rhe_of_int [simp]: "rhe (of_int n) = n"
  by (simp add: rhe_def)

lemma rhe_0 [simp]: "rhe 0 = 0"
  using rhe_of_int [of 0] by simp

lemma fl_0 [simp]: "fl 0 = Fin 0"
  by (simp add: fl_def)

lemma round2_0 [simp]: "round2 (Fin 0) = Fin 0"
  by simp

lemma pow2_nat_le: assumes "0 \<le> k" "2 ^ nat k \<le> (p::int)" shows "(2::rat) powi k \<le> of_int p"
proof -
  have "(2::rat) powi k = 2 ^ nat k" using assms(1) by (simp add: power_int_nonneg_exp)
  also have "\<dots> = of_int (2 ^ nat k)" by simp
  also have "\<dots> \<le> of_int p" using assms(2) by (simp only: of_int_le_iff)
  finally show ?thesis .
qed

lemma pow2_nat_gt: assumes "0 \<le> k" "(p::int) < 2 ^ nat k" shows "of_int p < (2::rat) powi k"
proof -
  have "of_int p < (of_int (2 ^ nat k) :: rat)" using assms(2) by (simp only: of_int_less_iff)
  also have "\<dots> = 2 ^ nat k" by simp
  also have "\<dots> = (2::rat) powi k" using assms(1) by (simp add: power_int_nonneg_exp)
  finally show ?thesis .
qed

lemma rhe_Ints: "x \<in> \<int> \<Longrightarrow> of_int (rhe x) = x"
  by (auto elim!: Ints_cases)

lemma rhe_bounds: "of_int (rhe x) \<le> x + 1/2" "x - 1/2 \<le> of_int (rhe x)"
  unfolding rhe_def Let_def by (auto; linarith)+

lemma rhe_mono: assumes "x \<le> y" shows "rhe x \<le> rhe y"
proof -
  have fx: "of_int \<lfloor>x\<rfloor> \<le> x" "x < of_int \<lfloor>x\<rfloor> + 1" by linarith+
  have fy: "of_int \<lfloor>y\<rfloor> \<le> y" "y < of_int \<lfloor>y\<rfloor> + 1" by linarith+
  have le: "\<lfloor>x\<rfloor> \<le> \<lfloor>y\<rfloor>" using assms by (rule floor_mono)
  show ?thesis
  proof (cases "\<lfloor>x\<rfloor> = \<lfloor>y\<rfloor>")
    case True
    then show ?thesis using assms unfolding rhe_def Let_def by auto
  next
    case False
    then have "\<lfloor>x\<rfloor> + 1 \<le> \<lfloor>y\<rfloor>" using le by simp
    moreover have "rhe x \<le> \<lfloor>x\<rfloor> + 1" unfolding rhe_def Let_def by auto
    moreover have "\<lfloor>y\<rfloor> \<le> rhe y" unfolding rhe_def Let_def by auto
    ultimately show ?thesis by linarith
  qed
qed

lemma rhe_nonneg: "0 \<le> x \<Longrightarrow> 0 \<le> rhe x"
  using rhe_mono [of 0 x] by simp

lemma ilog2_bounds:
  assumes "0 < x"
  shows "2 powi (ilog2 x) \<le> x" and "x < 2 powi (ilog2 x + 1)"
proof -
  obtain p q where pq: "quotient_of x = (p, q)" by (cases "quotient_of x")
  have q: "0 < q" using pq by (rule quotient_of_denom_pos)
  have x: "x = of_int p / of_int q" using pq by (rule quotient_of_div)
  have p: "0 < p" using assms q x by (simp add: zero_less_divide_iff)
  define bp where "bp = bitlen p"
  define bq where "bq = bitlen q"
  have bp: "2 ^ nat (bp - 1) \<le> p" "p < 2 ^ nat bp" using bitlen_bounds [OF p] by (simp_all add: bp_def)
  have bq: "2 ^ nat (bq - 1) \<le> q" "q < 2 ^ nat bq" using bitlen_bounds [OF q] by (simp_all add: bq_def)
  have bp1: "1 \<le> bp" using p by (simp add: bp_def bitlen_alt_def)
  have bq1: "1 \<le> bq" using q by (simp add: bq_def bitlen_alt_def)
  have P: "(2::rat) powi (bp - 1) \<le> of_int p" "of_int p < (2::rat) powi bp"
    using bp bp1 by (auto intro!: pow2_nat_le pow2_nat_gt)
  have Q: "(2::rat) powi (bq - 1) \<le> of_int q" "of_int q < (2::rat) powi bq"
    using bq bq1 by (auto intro!: pow2_nat_le pow2_nat_gt)
  have qpos: "(0::rat) < of_int q" using q by simp
  have lo: "2 powi (bp - bq - 1) \<le> x"
  proof -
    have "(2::rat) powi (bp - bq - 1) * of_int q \<le> 2 powi (bp - bq - 1) * 2 powi bq"
      using Q(2) by (intro mult_left_mono) auto
    also have "\<dots> = 2 powi (bp - 1)" by (simp flip: power_int_add)
    also have "\<dots> \<le> of_int p" by (rule P(1))
    finally show ?thesis using qpos by (simp add: x pos_le_divide_eq)
  qed
  have hi: "x < 2 powi (bp - bq + 1)"
  proof -
    have "of_int p < (2::rat) powi bp" by (rule P(2))
    also have "\<dots> = 2 powi (bp - bq + 1) * 2 powi (bq - 1)" by (simp flip: power_int_add)
    also have "\<dots> \<le> 2 powi (bp - bq + 1) * of_int q"
      using Q(1) by (intro mult_left_mono) auto
    finally show ?thesis using qpos by (simp add: x pos_divide_less_eq)
  qed
  have il: "ilog2 x = (if 2 powi (bp - bq) \<le> x then bp - bq else bp - bq - 1)"
    by (simp add: ilog2_def pq bp_def bq_def Let_def)
  show "2 powi (ilog2 x) \<le> x" using lo by (simp add: il)
  show "x < 2 powi (ilog2 x + 1)" using hi by (auto simp add: il not_le)
qed

lemma pow2_pos: "(0::rat) < 2 powi e"
  by simp

lemma pow2_less_cancel: "(2::rat) powi a < 2 powi b \<Longrightarrow> a < b"
  using power_int_increasing [of b a "2::rat"] by (cases "a < b") auto

lemma pow2_le_mono: "a \<le> b \<Longrightarrow> (2::rat) powi a \<le> 2 powi b"
  by (rule power_int_increasing) auto

lemma ilog2_unique:
  assumes "2 powi e \<le> x" "x < 2 powi (e + 1)"
  shows "ilog2 x = e"
proof -
  have x: "0 < x" using assms(1) pow2_pos [of e] by linarith
  note b = ilog2_bounds [OF x]
  have "(2::rat) powi e < 2 powi (ilog2 x + 1)" using assms(1) b(2) by linarith
  then have 1: "e < ilog2 x + 1" by (rule pow2_less_cancel)
  have "(2::rat) powi (ilog2 x) < 2 powi (e + 1)" using assms(2) b(1) by linarith
  then have 2: "ilog2 x < e + 1" by (rule pow2_less_cancel)
  show ?thesis using 1 2 by simp
qed

lemma ilog2_mono:
  assumes "0 < x" "x \<le> y"
  shows "ilog2 x \<le> ilog2 y"
proof -
  have y: "0 < y" using assms by simp
  have "(2::rat) powi (ilog2 x) < 2 powi (ilog2 y + 1)"
    using ilog2_bounds(1) [OF assms(1)] ilog2_bounds(2) [OF y] assms(2) by linarith
  then have "ilog2 x < ilog2 y + 1" by (rule pow2_less_cancel)
  then show ?thesis by simp
qed


lemma quantum_bexp: "quantum x = 2 powi (bexp x - 52)"
  by (simp add: quantum_def bexp_def)

lemma quantum_pos: "0 < quantum x"
  by (simp add: quantum_def pow2_pos)

lemma fl_rnd: "x \<noteq> 0 \<Longrightarrow>
  fl x = (if 2 ^ 1024 \<le> rnd x then (if 0 < x then PInf else NInf)
          else Fin (if 0 < x then rnd x else - rnd x))"
  by (simp add: fl_def rnd_def Let_def)

lemma rnd_nonneg: "0 \<le> rnd x"
  unfolding rnd_def using quantum_pos [of x]
  by (intro mult_nonneg_nonneg) (auto intro!: rhe_nonneg divide_nonneg_pos simp: less_imp_le)

lemma bexp_eq:
  assumes "2 powi e \<le> \<bar>x\<bar>" "\<bar>x\<bar> < 2 powi (e + 1)"
  shows "bexp x = max e (- 1022)"
  using ilog2_unique [OF assms] by (simp add: bexp_def)

lemma rhe_eval:
  assumes "\<bar>x - of_int n\<bar> < 1/2 \<or> (\<bar>x - of_int n\<bar> = 1/2 \<and> even n)"
  shows "rhe x = n"
proof (cases "of_int n \<le> x")
  case True
  then have f: "\<lfloor>x\<rfloor> = n" using assms by (intro floor_unique) auto
  show ?thesis using assms True unfolding rhe_def Let_def f by auto
next
  case False
  then have f: "\<lfloor>x\<rfloor> = n - 1" using assms by (intro floor_unique) auto
  show ?thesis using assms False unfolding rhe_def Let_def f by auto
qed

lemma fl_eval:
  assumes "0 < x" "2 powi e \<le> x" "x < 2 powi (e + 1)" "- 1022 \<le> e"
    and "\<bar>x / 2 powi (e - 52) - of_int n\<bar> < 1/2
         \<or> (\<bar>x / 2 powi (e - 52) - of_int n\<bar> = 1/2 \<and> even n)"
    and "2 powi (e - 52) * of_int n < (2::rat) ^ 1024"
  shows "fl x = Fin (2 powi (e - 52) * of_int n)"
proof -
  have "bexp x = e" using bexp_eq [of e x] assms by simp
  then have q: "quantum x = 2 powi (e - 52)" by (simp add: quantum_bexp)
  have "rhe (x / 2 powi (e - 52)) = n" using assms(5) by (rule rhe_eval)
  then have r: "rnd x = 2 powi (e - 52) * of_int n" using assms(1) by (simp add: rnd_def q)
  show ?thesis using assms(1,6) by (simp add: fl_rnd r)
qed

lemma fl_minus: "fl (- x) = fneg (fl x)"
proof (cases "x = 0")
  case True then show ?thesis by simp
next
  case False
  have "rnd (- x) = rnd x" by (simp add: rnd_def quantum_def)
  then show ?thesis using False by (auto simp add: fl_rnd)
qed

lemma fl_pos: "0 < x \<Longrightarrow> fl x = (if 2 ^ 1024 \<le> rnd x then PInf else Fin (rnd x))"
  by (simp add: fl_rnd)

lemma fl_nonneg_cases:
  assumes "0 \<le> x"
  shows "fl x = PInf \<or> (\<exists>a. fl x = Fin a \<and> 0 \<le> a)"
proof (cases "x = 0")
  case True then show ?thesis by simp
next
  case False
  then have "0 < x" using assms by simp
  then show ?thesis using rnd_nonneg [of x] by (simp add: fl_pos)
qed

lemma fl_nonpos_le_0: "x \<le> 0 \<Longrightarrow> le_0 (fl x)"
  using fl_nonneg_cases [of "- x"] fl_minus [of "- x"]
  by (cases "fl (- x)") auto

lemma bexp_ge: "- 1022 \<le> bexp x"
  by (simp add: bexp_def)

lemma bexp_mono: "0 < x \<Longrightarrow> x \<le> y \<Longrightarrow> bexp x \<le> bexp y"
  using ilog2_mono [of x y] by (simp add: bexp_def max_def)

lemma bexp_upper: assumes "0 < x" shows "x < 2 powi (bexp x + 1)"
proof -
  have "x < 2 powi (ilog2 x + 1)" using assms by (rule ilog2_bounds)
  also have "\<dots> \<le> 2 powi (bexp x + 1)" using assms by (intro pow2_le_mono) (simp add: bexp_def)
  finally show ?thesis .
qed

lemma bexp_lower: assumes "0 < x" "- 1022 < bexp x" shows "2 powi (bexp x) \<le> x"
proof -
  have "bexp x = ilog2 x" using assms by (simp add: bexp_def max_def split: if_splits)
  then show ?thesis using ilog2_bounds(1) [OF assms(1)] by simp
qed

lemma bexp_le: assumes "0 < x" "x < 2 powi (k + 1)" "- 1022 \<le> k" shows "bexp x \<le> k"
proof -
  have "(2::rat) powi (ilog2 x) < 2 powi (k + 1)" using ilog2_bounds(1) [OF assms(1)] assms(2) by linarith
  then have "ilog2 x < k + 1" by (rule pow2_less_cancel)
  then show ?thesis using assms(1,3) by (simp add: bexp_def)
qed

lemma pow2_add: "(2::rat) powi (a + b) = 2 powi a * 2 powi b"
  by (simp add: power_int_add)

lemma pow2_diff: "(2::rat) powi (a - b) = 2 powi a / 2 powi b"
  by (simp add: power_int_diff)

lemma pow2_Ints: "0 \<le> k \<Longrightarrow> (2::rat) powi k \<in> \<int>"
  by (simp add: power_int_nonneg_exp)

lemma pow2_53: "(2::rat) powi (e - 52) * 2 ^ 53 = 2 powi (e + 1)"
  using power_int_add [of "2::rat" "e - 52" 53] by (simp add: add.commute)

lemma pow2_52: "(2::rat) powi (e - 52) * 2 ^ 52 = 2 powi e"
  using power_int_add [of "2::rat" "e - 52" 52] by simp

text \<open>The rounded magnitude stays inside the binade of its argument.\<close>

lemma rnd_upper: assumes "0 < x" shows "rnd x \<le> 2 powi (bexp x + 1)"
proof -
  define q :: rat where "q = 2 powi (bexp x - 52)"
  have q: "0 < q" unfolding q_def by (rule pow2_pos)
  have "x < q * 2 ^ 53" using bexp_upper [OF assms] unfolding q_def pow2_53 .
  then have "x / q \<le> of_int (2 ^ 53)" using q by (simp add: pos_divide_le_eq mult.commute)
  then have "rhe (x / q) \<le> rhe (of_int (2 ^ 53))" by (rule rhe_mono)
  then have "rhe (x / q) \<le> 2 ^ 53" by (simp only: rhe_of_int)
  then have "(of_int (rhe (x / q)) :: rat) \<le> of_int (2 ^ 53)" by (simp only: of_int_le_iff)
  then have "q * of_int (rhe (x / q)) \<le> q * of_int (2 ^ 53)" using q by (simp only: mult_le_cancel_left_pos)
  also have "\<dots> = q * 2 ^ 53" by simp
  also have "\<dots> = 2 powi (bexp x + 1)" unfolding q_def by (rule pow2_53)
  finally show ?thesis using assms by (simp add: rnd_def quantum_bexp q_def)
qed

lemma rnd_lower: assumes "0 < x" "- 1022 < bexp x" shows "2 powi (bexp x) \<le> rnd x"
proof -
  define q :: rat where "q = 2 powi (bexp x - 52)"
  have q: "0 < q" unfolding q_def by (rule pow2_pos)
  have "q * 2 ^ 52 \<le> x" using bexp_lower [OF assms] unfolding q_def pow2_52 .
  then have "of_int (2 ^ 52) \<le> x / q" using q by (simp add: pos_le_divide_eq mult.commute)
  then have "rhe (of_int (2 ^ 52)) \<le> rhe (x / q)" by (rule rhe_mono)
  then have "2 ^ 52 \<le> rhe (x / q)" by (simp only: rhe_of_int)
  then have "(of_int (2 ^ 52) :: rat) \<le> of_int (rhe (x / q))" by (simp only: of_int_le_iff)
  then have *: "q * of_int (2 ^ 52) \<le> q * of_int (rhe (x / q))" using q by (simp only: mult_le_cancel_left_pos)
  have "2 powi (bexp x) = q * 2 ^ 52" unfolding q_def by (rule pow2_52 [symmetric])
  also have "\<dots> = q * of_int (2 ^ 52)" by simp
  also have "\<dots> \<le> q * of_int (rhe (x / q))" by (rule *)
  finally show ?thesis using assms by (simp add: rnd_def quantum_bexp q_def)
qed

lemma rnd_mono: assumes "0 < x" "x \<le> y" shows "rnd x \<le> rnd y"
proof -
  have y: "0 < y" using assms by simp
  have le: "bexp x \<le> bexp y" using assms by (rule bexp_mono)
  show ?thesis
  proof (cases "bexp x = bexp y")
    case True
    let ?q = "2 powi (bexp y - 52) :: rat"
    have q: "0 < ?q" by (rule pow2_pos)
    have "x / ?q \<le> y / ?q" using assms(2) q by (simp add: divide_right_mono)
    then have "rhe (x / ?q) \<le> rhe (y / ?q)" by (rule rhe_mono)
    then have "(of_int (rhe (x / ?q)) :: rat) \<le> of_int (rhe (y / ?q))" by (simp only: of_int_le_iff)
    then have "?q * of_int (rhe (x / ?q)) \<le> ?q * of_int (rhe (y / ?q))"
      using q by (simp only: mult_le_cancel_left_pos)
    then show ?thesis using assms y True by (simp add: rnd_def quantum_bexp)
  next
    case False
    then have lt: "bexp x + 1 \<le> bexp y" using le by simp
    have "rnd x \<le> 2 powi (bexp x + 1)" using assms(1) by (rule rnd_upper)
    also have "\<dots> \<le> 2 powi (bexp y)" using lt by (rule pow2_le_mono)
    also have "\<dots> \<le> rnd y" using y lt bexp_ge [of x] by (intro rnd_lower) auto
    finally show ?thesis .
  qed
qed

text \<open>Rounding is monotone, and a non-negative argument below a finite result stays finite.\<close>

lemma fl_mono_fin:
  assumes "0 \<le> x" "x \<le> y" "fl y = Fin b"
  shows "\<exists>a. fl x = Fin a \<and> 0 \<le> a \<and> a \<le> b"
proof (cases "x = 0")
  case True
  have "0 \<le> b" using fl_nonneg_cases [of y] assms by auto
  then show ?thesis using True by simp
next
  case False
  then have x: "0 < x" using assms by simp
  then have y: "0 < y" using assms by simp
  have b: "rnd y = b" "\<not> 2 ^ 1024 \<le> rnd y" using assms(3) y by (auto simp add: fl_pos split: if_splits)
  have "rnd x \<le> rnd y" using x assms(2) by (rule rnd_mono)
  then show ?thesis using b x rnd_nonneg [of x] by (simp add: fl_pos)
qed

text \<open>Numbers on the grid of their binade are binary64 numbers.\<close>

lemma fl_exact:
  assumes "0 < x" "x / quantum x \<in> \<int>" "x < 2 ^ 1024"
  shows "fl x = Fin x"
proof -
  have "of_int (rhe (x / quantum x)) = x / quantum x" using assms(2) by (rule rhe_Ints)
  then have "rnd x = x" using assms(1) quantum_pos [of x] by (simp add: rnd_def)
  then show ?thesis using assms by (simp add: fl_pos)
qed

lemma is_double_grid:
  assumes "is_double x" "0 < x"
  shows "x / quantum x \<in> \<int>"
proof -
  have "rnd x = x" using assms by (auto simp add: is_double_def fl_pos split: if_splits)
  then have "x / quantum x = of_int (rhe (x / quantum x))"
    using assms(2) quantum_pos [of x] by (simp add: rnd_def field_simps)
  then show ?thesis by (metis Ints_of_int)
qed

lemma is_double_lt: assumes "is_double x" shows "x < 2 ^ 1024"
proof (cases "0 < x")
  case True
  then show ?thesis using assms by (auto simp add: is_double_def fl_pos split: if_splits)
next
  case False
  have "(0::rat) < 2 ^ 1024" by simp
  then show ?thesis using False by linarith
qed

lemma grid_Ints:
  fixes x :: rat
  assumes "x / 2 powi a \<in> \<int>" "b \<le> a"
  shows "x / 2 powi b \<in> \<int>"
proof -
  have "(2::rat) powi a = 2 powi b * 2 powi (a - b)"
    using power_int_add [of "2::rat" b "a - b"] by simp
  then have e: "x / 2 powi b = x / 2 powi a * 2 powi (a - b)"
    using pow2_pos [of b] pow2_pos [of "a - b"] by (simp add: field_simps)
  have p: "(2::rat) powi (a - b) \<in> \<int>" using assms(2) by (intro pow2_Ints) simp
  have m: "x / 2 powi a * 2 powi (a - b) \<in> \<int>" using assms(1) p by (rule Ints_mult)
  show ?thesis by (simp only: e m)
qed

lemma int_grid:
  assumes "b \<le> 0"
  shows "of_int c / (2::rat) powi b \<in> \<int>"
proof -
  have "of_int c / (2::rat) powi 0 \<in> \<int>" by simp
  then show ?thesis using assms by (rule grid_Ints)
qed

lemma fl_of_int:
  assumes "0 \<le> n" "n < 2 ^ 53"
  shows "fl (of_int n) = Fin (of_int n)"
proof (cases "n = 0")
  case True then show ?thesis by simp
next
  case False
  define x :: rat where "x = of_int n"
  have x: "0 < x" using False assms(1) by (simp add: x_def)
  have "x < of_int (2 ^ 53)" unfolding x_def using assms(2) by (simp only: of_int_less_iff)
  then have lt: "x < 2 ^ 53" by simp
  then have "x < 2 powi (52 + 1)" by simp
  then have "bexp x \<le> 52" using x by (intro bexp_le) auto
  then have "bexp x - 52 \<le> 0" by simp
  then have g: "x / quantum x \<in> \<int>" unfolding quantum_bexp x_def by (rule int_grid)
  have "(2::rat) ^ 53 \<le> 2 ^ 1024" by (rule power_increasing) auto
  then have "x < 2 ^ 1024" using lt by linarith
  with x g have "fl x = Fin x" by (rule fl_exact)
  then show ?thesis by (simp only: x_def)
qed

text \<open>
  Subtracting an int from a binary64 number of at most \<open>2^53\<close> is exact when the result is
  not negative.
\<close>

lemma fl_sub_exact:
  assumes "is_double x" "0 \<le> c" "of_int c \<le> x" "x \<le> 2 ^ 53"
  shows "fl (x - of_int c) = Fin (x - of_int c)"
proof -
  define y where "y = x - of_int c"
  consider "c = 0" | "y = 0" | "0 < c" "0 < y" using assms(2,3) by (auto simp add: y_def less_le)
  then show ?thesis
  proof cases
    case 1 then show ?thesis using assms(1) by (simp add: is_double_def)
  next
    case 2 then show ?thesis by (simp add: y_def)
  next
    case 3
    have c1: "(1::rat) \<le> of_int c" using 3(1) by simp
    have x: "0 < x" using 3 assms(3) by (simp add: y_def)
    have yx: "y \<le> x" using assms(2) by (simp add: y_def)
    have "y < 2 ^ 53" using c1 assms(4) by (simp add: y_def)
    then have "y < 2 powi (52 + 1)" by simp
    then have by52: "bexp y \<le> 52" using 3(2) by (intro bexp_le) auto
    have byx: "bexp y \<le> bexp x" using 3(2) yx by (rule bexp_mono)
    have g0: "x / 2 powi (bexp x - 52) \<in> \<int>"
      using is_double_grid [OF assms(1) x] unfolding quantum_bexp .
    have le1: "bexp y - 52 \<le> bexp x - 52" using byx by simp
    have gx: "x / 2 powi (bexp y - 52) \<in> \<int>" using g0 le1 by (rule grid_Ints)
    have le2: "bexp y - 52 \<le> 0" using by52 by simp
    have gc: "of_int c / (2::rat) powi (bexp y - 52) \<in> \<int>" using le2 by (rule int_grid)
    have e: "y / quantum y = x / 2 powi (bexp y - 52) - of_int c / 2 powi (bexp y - 52)"
      unfolding quantum_bexp y_def by (rule diff_divide_distrib)
    have "x / 2 powi (bexp y - 52) - of_int c / 2 powi (bexp y - 52) \<in> \<int>"
      using gx gc by (rule Ints_diff)
    then have gy: "y / quantum y \<in> \<int>" by (simp only: e)
    have "y < 2 ^ 1024" using yx is_double_lt [OF assms(1)] by linarith
    with 3(2) gy have "fl y = Fin y" by (rule fl_exact)
    then show ?thesis by (simp only: y_def)
  qed
qed

text \<open>Every finite result of \<open>fl\<close> is a binary64 number.\<close>

lemma fl_is_double_pos:
  assumes "0 < x" "fl x = Fin y"
  shows "is_double y"
proof -
  have y: "y = rnd x" "y < 2 ^ 1024" using assms by (auto simp add: fl_pos split: if_splits)
  have y0: "0 \<le> y" using y(1) rnd_nonneg [of x] by simp
  define n where "n = rhe (x / quantum x)"
  have yn: "y / 2 powi (bexp x - 52) = of_int n"
    using assms(1) pow2_pos [of "bexp x - 52"] by (simp add: y(1) rnd_def n_def quantum_bexp)
  have up: "y \<le> 2 powi (bexp x + 1)" using rnd_upper [OF assms(1)] y(1) by simp
  show ?thesis
  proof (cases "y = 0")
    case True then show ?thesis by (simp add: is_double_def)
  next
    case False
    then have yp: "0 < y" using y0 by simp
    show ?thesis
    proof (cases "y < 2 powi (bexp x + 1)")
      case True
      then have "bexp y \<le> bexp x" using yp bexp_ge [of x] by (intro bexp_le) auto
      then have le1: "bexp y - 52 \<le> bexp x - 52" by simp
      have g0: "y / 2 powi (bexp x - 52) \<in> \<int>" by (simp only: yn Ints_of_int)
      have "y / 2 powi (bexp y - 52) \<in> \<int>" using g0 le1 by (rule grid_Ints)
      then have gy: "y / quantum y \<in> \<int>" by (simp only: quantum_bexp)
      show ?thesis unfolding is_double_def using yp gy y(2) by (rule fl_exact)
    next
      case False
      then have eq: "y = 2 powi (bexp x + 1)" using up by simp
      have "\<bar>y\<bar> < 2 powi (bexp x + 1 + 1)"
        unfolding eq using power_int_strict_increasing [of "bexp x + 1" "bexp x + 1 + 1" "2::rat"]
        by (simp add: abs_of_pos pow2_pos)
      moreover have "2 powi (bexp x + 1) \<le> \<bar>y\<bar>" unfolding eq by (simp add: abs_of_pos pow2_pos)
      ultimately have "bexp y = max (bexp x + 1) (- 1022)" by (intro bexp_eq)
      then have bxy: "bexp y = bexp x + 1" using bexp_ge [of x] by simp
      define e where "e = bexp x + 1"
      have ne: "(2::rat) powi (e - 52) \<noteq> 0" using pow2_pos [of "e - 52"] by simp
      have c: "2 powi (e - 52) * 2 ^ 52 / 2 powi (e - 52) = (2::rat) ^ 52"
        using ne by (rule nonzero_mult_div_cancel_left)
      have q: "quantum y = 2 powi (e - 52)" by (simp only: quantum_bexp bxy e_def)
      have y2: "y = 2 powi (e - 52) * 2 ^ 52" by (simp only: eq e_def pow2_52)
      have "y / quantum y = y / 2 powi (e - 52)" by (simp only: q)
      also have "\<dots> = 2 powi (e - 52) * 2 ^ 52 / 2 powi (e - 52)"
        by (rule arg_cong [where f = "\<lambda>t. t / 2 powi (e - 52)", OF y2])
      also have "\<dots> = 2 ^ 52" by (rule c)
      also have "\<dots> = of_int (2 ^ 52)" by (simp only: of_int_power of_int_numeral)
      finally have "y / quantum y = of_int (2 ^ 52)" .
      then have gy: "y / quantum y \<in> \<int>" by (simp only: Ints_of_int)
      show ?thesis unfolding is_double_def using yp gy y(2) by (rule fl_exact)
    qed
  qed
qed

lemma is_double_minus: "is_double (- x) = is_double x"
  unfolding is_double_def fl_minus by (cases "fl x") auto

lemma fl_is_double:
  assumes "fl x = Fin y"
  shows "is_double y"
proof -
  consider "x = 0" | "0 < x" | "x < 0" by linarith
  then show ?thesis
  proof cases
    case 1 then show ?thesis using assms by (simp add: is_double_def)
  next
    case 2 then show ?thesis using assms by (rule fl_is_double_pos)
  next
    case 3
    have "fl (- x) = Fin (- y)" using assms by (simp add: fl_minus)
    then have "is_double (- y)" using 3 by (intro fl_is_double_pos [of "- x"]) auto
    then show ?thesis by (simp add: is_double_minus)
  qed
qed

lemma is_double_0 [simp]: "is_double 0"
  by (simp add: is_double_def)

section \<open>One pass of the loop body\<close>

lemma units_in_slab_Fin:
  "units_in_slab s (Fin r) p =
     (if upto s = 0 then (if 0 < r then PyFloat (Fin r) else PyInt 0)
      else if of_int (upto s - p) < r
           then (if 0 < upto s - p then PyInt (upto s - p) else PyInt 0)
           else (if 0 < r then PyFloat (Fin r) else PyInt 0))"
  by (simp add: units_in_slab_def py_min_def py_max_0_def Let_def)

lemma units_in_slab_disj:
  "(units_in_slab s (Fin r) p = PyInt 0 \<and> (upto s = 0 \<longrightarrow> r \<le> 0))
   \<or> (units_in_slab s (Fin r) p = PyFloat (Fin r) \<and> 0 < r
       \<and> (upto s \<noteq> 0 \<longrightarrow> r \<le> of_int (upto s - p)))
   \<or> (units_in_slab s (Fin r) p = PyInt (upto s - p) \<and> upto s \<noteq> 0
       \<and> 0 < upto s - p \<and> of_int (upto s - p) < r)"
proof (cases "upto s = 0")
  case True
  then show ?thesis by (simp add: units_in_slab_Fin)
next
  case False
  then show ?thesis
    by (cases "of_int (upto s - p) < r"; cases "0 < upto s - p"; cases "0 < r")
       (simp_all add: units_in_slab_Fin)
qed

lemma units_in_slab_cases:
  obtains (zero) "units_in_slab s (Fin r) p = PyInt 0"
      "upto s = 0 \<longrightarrow> r \<le> 0"
    | (rest) "units_in_slab s (Fin r) p = PyFloat (Fin r)" "0 < r"
      "upto s \<noteq> 0 \<longrightarrow> r \<le> of_int (upto s - p)"
    | (cap) "units_in_slab s (Fin r) p = PyInt (upto s - p)" "upto s \<noteq> 0"
      "0 < upto s - p" "of_int (upto s - p) < r"
  using units_in_slab_disj [of s r p] by blast

lemma fsub_Fin: "fsub (Fin a) (Fin b) = fl (a - b)"
  by (simp add: fsub_def)

lemma slab_step:
  assumes "is_double r"
  shows "\<exists>v u r'. exact_value (units_in_slab s (Fin r) p) = Some v
           \<and> to_float (units_in_slab s (Fin r) p) = Inr (Fin u)
           \<and> fsub (Fin r) (Fin u) = Fin r' \<and> is_double r'
           \<and> (0 \<le> r \<longrightarrow> 0 \<le> v \<and> v \<le> r \<and> 0 \<le> u \<and> u \<le> r \<and> 0 \<le> r' \<and> r' \<le> r)
           \<and> (r \<le> 0 \<longrightarrow> v = 0 \<and> r' = r)
           \<and> (0 \<le> r \<and> r \<le> 2 ^ 53 \<longrightarrow> u = v \<and> r' = r - v)
           \<and> (upto s = 0 \<and> 0 \<le> r \<longrightarrow> r' = 0 \<and> v = r)
           \<and> (upto s \<noteq> 0 \<longrightarrow> v \<le> max 0 (of_int (upto s - p)))"
proof (cases rule: units_in_slab_cases [of s r p])
  case zero
  have "fsub (Fin r) (Fin 0) = Fin r" using assms by (simp add: fsub_Fin is_double_def)
  then show ?thesis using zero assms by (intro exI [of _ 0] exI [of _ r]) auto
next
  case rest
  have "fsub (Fin r) (Fin r) = Fin 0" by (simp add: fsub_Fin)
  then show ?thesis using rest by (intro exI [of _ r] exI [of _ 0]) auto
next
  case cap
  define c where "c = upto s - p"
  have c: "0 < c" "of_int c < r" using cap by (simp_all add: c_def)
  have r: "0 < r" using c by (smt (verit) of_int_pos order_less_trans)
  have flr: "fl r = Fin r" using assms by (simp add: is_double_def)
  obtain u where u: "fl (of_int c) = Fin u" "0 \<le> u" "u \<le> r"
    using fl_mono_fin [of "of_int c" r r] c flr by auto
  obtain r' where r': "fl (r - u) = Fin r'" "0 \<le> r'" "r' \<le> r"
    using fl_mono_fin [of "r - u" r r] u flr by auto
  have d: "is_double r'" using r'(1) by (rule fl_is_double)
  have ex: "u = of_int c \<and> r' = r - of_int c" if "r \<le> 2 ^ 53"
  proof -
    have "of_int c < (of_int (2 ^ 53) :: rat)" using c(2) that by simp
    then have "c < 2 ^ 53" by (simp only: of_int_less_iff)
    then have "fl (of_int c) = Fin (of_int c)" using c(1) by (intro fl_of_int) auto
    then have 1: "u = of_int c" using u(1) by simp
    have "fl (r - of_int c) = Fin (r - of_int c)"
      using assms c that by (intro fl_sub_exact) auto
    then show ?thesis using r'(1) 1 by simp
  qed
  have tf: "to_float (PyInt c) = Inr (Fin u)" using u(1) by simp
  have fs: "fsub (Fin r) (Fin u) = Fin r'" using r'(1) by (simp add: fsub_Fin)
  show ?thesis
    using cap(1,2) c r u r' d ex tf fs unfolding c_def [symmetric]
    by (intro exI [of _ "of_int c"] exI [of _ u] exI [of _ r']) auto
qed

section \<open>Slab labels\<close>

lemma digits_limit: "(10::int) ^ 18 < 10 ^ int_max_str_digits"
  unfolding int_max_str_digits_def by (rule power_strict_increasing) simp_all

lemma small_printable: "\<bar>i::int\<bar> < 10 ^ 18 \<Longrightarrow> \<bar>i\<bar> + 1 < 10 ^ int_max_str_digits"
  using digits_limit by simp

lemma str_int_ok: "\<bar>i\<bar> < 10 ^ int_max_str_digits \<Longrightarrow> str_int i = Inr (int_digits i)"
  by (simp add: str_int_def)

lemma str_int_small: "\<bar>i\<bar> < 10 ^ 18 \<Longrightarrow> str_int i = Inr (int_digits i)"
  using digits_limit by (intro str_int_ok) simp

lemma int_digits_1: "int_digits 1 = ''1''"
  by (simp add: int_digits_def str_nat.simps)

lemma slab_range_ok:
  assumes "\<bar>p\<bar> + 1 < 10 ^ int_max_str_digits" "\<bar>upto s\<bar> < 10 ^ int_max_str_digits"
  shows "slab_range s p =
           Inr (int_digits (p + 1) @ ''-'' @ (if upto s \<noteq> 0 then int_digits (upto s) else ''above''))"
proof -
  have "\<bar>p + 1\<bar> < 10 ^ int_max_str_digits" using assms(1) by linarith
  then show ?thesis using assms(2) by (simp add: slab_range_def str_int_ok)
qed

lemma slab_loop_nonpos:
  assumes "is_double r" "r \<le> 0"
  shows "slab_loop (s # rest) (Fin r) e ds p =
           (case slab_range s p of
              Inl er \<Rightarrow> Inl er
            | Inr l \<Rightarrow>
               Inr (fadd e (fmul (Fin 0) (rate s)),
                    ds @ [\<lparr>det_slab_range = l, det_units = PyInt 0, det_rate = rate s,
                            det_charge = round2 (fmul (Fin 0) (rate s))\<rparr>]))"
proof -
  have u: "units_in_slab s (Fin r) p = PyInt 0"
  proof (cases rule: units_in_slab_cases [of s r p])
    case zero
    then show ?thesis by simp
  next
    case rest
    then show ?thesis using assms(2) by simp
  next
    case cap
    have "(0::rat) < of_int (upto s - p)" using cap(3) by simp
    then show ?thesis using cap(4) assms(2) by linarith
  qed
  have f: "fsub (Fin r) (Fin 0) = Fin r" using assms(1) by (simp add: fsub_Fin is_double_def)
  show ?thesis using assms(2) by (simp add: u f Let_def split: sum.splits)
qed

lemma slab_loop_total:
  assumes "is_double r" "\<bar>p\<bar> + 1 < 10 ^ int_max_str_digits"
      "\<forall>s\<in>set slabs. \<bar>upto s\<bar> + 1 < 10 ^ int_max_str_digits"
  shows "\<exists>e' ds'. slab_loop slabs (Fin r) e ds p = Inr (e', ds')"
  using assms
proof (induction slabs arbitrary: r e ds p)
  case Nil
  then show ?case by simp
next
  case (Cons s slabs)
  obtain u r' where st: "to_float (units_in_slab s (Fin r) p) = Inr (Fin u)"
      "fsub (Fin r) (Fin u) = Fin r'" "is_double r'"
    using slab_step [OF Cons.prems(1), of s p] by blast
  have s: "\<bar>upto s\<bar> + 1 < 10 ^ int_max_str_digits" using Cons.prems(3) by simp
  then have "\<bar>upto s\<bar> < 10 ^ int_max_str_digits" by linarith
  then obtain l where l: "slab_range s p = Inr l"
    using slab_range_ok [OF Cons.prems(2)] by blast
  have rest: "\<forall>s\<in>set slabs. \<bar>upto s\<bar> + 1 < 10 ^ int_max_str_digits"
    using Cons.prems(3) by simp
  show ?case
  proof (cases "r' \<le> 0")
    case True
    then show ?thesis using st l by (simp add: Let_def)
  next
    case False
    then show ?thesis using st l Cons.IH [OF st(3) s rest] by (simp add: Let_def)
  qed
qed

section \<open>Evaluating concrete bills\<close>

lemma fl_numeral: "numeral k < (2::int) ^ 53 \<Longrightarrow> fl (numeral k) = Fin (numeral k)"
  using fl_of_int [of "numeral k"] by simp

lemma fl_1 [simp]: "fl 1 = Fin 1"
  using fl_of_int [of 1] by simp

lemma rhe_numeral [simp]: "rhe (numeral k) = numeral k"
  using rhe_of_int [of "numeral k"] by simp

lemma rhe_neg_numeral [simp]: "rhe (- numeral k) = - numeral k"
  using rhe_of_int [of "- numeral k"] by simp

lemma rhe_1 [simp]: "rhe 1 = 1"
  using rhe_of_int [of 1] by simp

lemmas bill_eval = str_nat.simps calculate_bill_def default_slabs_def units_in_slab_def
  py_min_def py_max_0_def fsub_def slab_range_def str_int_small int_digits_def Let_def
  fl_numeral fl_minus

lemma fl_gst_on_50: "fl (90071992547409925 / 36028797018963968) = Fin (5 / 2)"
  using fl_eval [of "90071992547409925 / 36028797018963968" "1" 5629499534213120] by simp

lemma fl_exact_5_2: "fl (5 / 2) = Fin (5 / 2)"
  using fl_eval [of "5 / 2" "1" 5629499534213120] by simp

lemma fl_exact_105_2: "fl (105 / 2) = Fin (105 / 2)"
  using fl_eval [of "105 / 2" "5" 7388718138654720] by simp

subsection \<open>250 units on the default slabs\<close>

lemma ex250_fl0: "fl (1 / 20) = Fin (3602879701896397 / 72057594037927936)"
  using fl_eval [of "1 / 20" "-5" 7205759403792794] by simp

lemma ex250_fl1: "fl (1891511843495608425 / 36028797018963968) = Fin (105 / 2)"
  using fl_eval [of "1891511843495608425 / 36028797018963968" "5" 7388718138654720] by simp

lemma ex250_fl2: "fl (105 / 2) = Fin (105 / 2)"
  using fl_eval [of "105 / 2" "5" 7388718138654720] by simp

lemma ex250_fl3: "fl (2205 / 2) = Fin (2205 / 2)"
  using fl_eval [of "2205 / 2" "10" 4848846278492160] by simp

lemma ex250_fl4: "fl (2305 / 2) = Fin (2305 / 2)"
  using fl_eval [of "2305 / 2" "10" 5068748604047360] by simp

lemma ex250_fl5: "fl (8304637712871195085 / 144115188075855872) = Fin (461 / 8)"
  using fl_eval [of "8304637712871195085 / 144115188075855872" "5" 8109997766475776] by simp

lemma ex250_fl6: "fl (2881 / 50) = Fin (8109294079033999 / 140737488355328)"
  using fl_eval [of "2881 / 50" "5" 8109294079033999] by simp

lemma ex250_fl7: "fl (170309249408549519 / 140737488355328) = Fin (1330541011004293 / 1099511627776)"
  using fl_eval [of "170309249408549519 / 140737488355328" "10" 5322164044017172] by simp

lemma ex250_fl8: "fl (30253 / 25) = Fin (1330541011004293 / 1099511627776)"
  using fl_eval [of "30253 / 25" "10" 5322164044017172] by simp

lemma ex250_fl9: "fl (5763 / 100) = Fin (8110701453917553 / 140737488355328)"
  using fl_eval [of "5763 / 100" "5" 8110701453917553] by simp

lemma ex250_fl10: "fl (121013 / 100) = Fin (1330552006120571 / 1099511627776)"
  using fl_eval [of "121013 / 100" "10" 5322208024482284] by simp

lemma ex250_rhe0: "rhe (11525 / 2) = 5762"
  by (rule rhe_eval) simp

lemma ex250_rhe1: "rhe (33263525275107325 / 274877906944) = 121012"
  by (rule rhe_eval) simp

lemma bill_250:
  "calculate_bill (Fin 250) default_slabs (Fin 50) (Fin 5) (Fin 5) =
   Inr \<lparr>bill_units = Fin 250,
        bill_slab_details =
          [\<lparr>det_slab_range = ''1-100'', det_units = PyInt 100, det_rate = Fin 3,
             det_charge = Fin 300\<rparr>,
           \<lparr>det_slab_range = ''101-200'', det_units = PyInt 100, det_rate = Fin (9 / 2),
             det_charge = Fin 450\<rparr>,
           \<lparr>det_slab_range = ''201-300'', det_units = PyFloat (Fin 50), det_rate = Fin 6,
             det_charge = Fin 300\<rparr>],
        bill_energy_charge = Fin 1050, bill_fixed_charge = Fin 50,
        bill_duty_pct = Fin 5, bill_duty = Fin (105 / 2),
        bill_gst_pct = Fin 5, bill_gst = Fin (8109294079033999 / 140737488355328),
        bill_subtotal = Fin (2305 / 2), bill_total_bill = Fin (1330541011004293 / 1099511627776)\<rparr>"
  by (simp add: bill_eval ex250_fl0 ex250_fl1 ex250_fl2 ex250_fl3 ex250_fl4 ex250_fl5 ex250_fl6 ex250_fl7 ex250_fl8 ex250_fl9 ex250_fl10 ex250_rhe0 ex250_rhe1)

text \<open>
  C6, as the code computes it. For 250 units on the default slabs with fixed charge 50, duty
  5% and GST 5% the energy charge is 1050.00, the duty 52.50 and the subtotal 1152.50; the
  GST is the float 57.62 and the total the float 1210.12: \<^verbatim>\<open>0.05 * 1152.5\<close> is exactly
  57.625 in binary64 and \<^verbatim>\<open>round\<close> takes the tie to the even digit.
\<close>

theorem example_250_units:
  "calculate_bill (Fin 250) default_slabs (Fin 50) (Fin 5) (Fin 5) =
   Inr \<lparr>bill_units = Fin 250,
        bill_slab_details =
          [\<lparr>det_slab_range = ''1-100'', det_units = PyInt 100, det_rate = Fin 3,
             det_charge = Fin 300\<rparr>,
           \<lparr>det_slab_range = ''101-200'', det_units = PyInt 100, det_rate = Fin (9 / 2),
             det_charge = Fin 450\<rparr>,
           \<lparr>det_slab_range = ''201-300'', det_units = PyFloat (Fin 50), det_rate = Fin 6,
             det_charge = Fin 300\<rparr>],
        bill_energy_charge = Fin 1050, bill_fixed_charge = Fin 50,
        bill_duty_pct = Fin 5, bill_duty = Fin (105 / 2),
        bill_gst_pct = Fin 5, bill_gst = fl (5762 / 100),
        bill_subtotal = Fin (2305 / 2), bill_total_bill = fl (121012 / 100)\<rparr>"
  by (simp add: bill_250 ex250_fl0 ex250_fl1 ex250_fl2 ex250_fl3 ex250_fl4 ex250_fl5 ex250_fl6 ex250_fl7 ex250_fl8 ex250_fl9 ex250_fl10 ex250_rhe0 ex250_rhe1)

text \<open>
  C6 as stated fails: the GST of that bill is not the float 57.63 and the total is not the
  float 1210.13.
\<close>

theorem example_250_units_counterexample:
  "map_sum id bill_gst (calculate_bill (Fin 250) default_slabs (Fin 50) (Fin 5) (Fin 5))
     \<noteq> Inr (fl (5763 / 100))
   \<and> map_sum id bill_total_bill
        (calculate_bill (Fin 250) default_slabs (Fin 50) (Fin 5) (Fin 5))
     \<noteq> Inr (fl (121013 / 100))"
  by (simp add: bill_250 ex250_fl0 ex250_fl1 ex250_fl2 ex250_fl3 ex250_fl4 ex250_fl5 ex250_fl6 ex250_fl7 ex250_fl8 ex250_fl9 ex250_fl10 ex250_rhe0 ex250_rhe1)

section \<open>No input is rejected\<close>

lemma bill_minus_5:
  "map_sum id bill_total_bill
     (calculate_bill (Fin (- 5)) default_slabs (Fin 50) (Fin 5) (Fin 5)) = Inr (Fin (105 / 2))"
  by (simp add: bill_eval ex250_fl0 fl_gst_on_50 fl_exact_5_2 fl_exact_105_2)

text \<open>
  C5 as stated fails: \<^verbatim>\<open>calculate_bill\<close> has no validation. For the negative consumption
  \<open>-5\<close> on the default slabs it returns a bill, with total 52.50, and no error.
\<close>

theorem negative_units_counterexample:
  "map_sum id bill_total_bill
     (calculate_bill (Fin (- 5)) default_slabs (Fin 50) (Fin 5) (Fin 5)) = Inr (Fin (105 / 2))"
  by (rule bill_minus_5)

text \<open>
  C5 as the code behaves: \<^verbatim>\<open>calculate_bill\<close> checks nothing. For every finite float
  consumption, negative ones included, every slab list in any order whose limits \<open>k\<close> can be
  printed in a label (\<open>\<bar>k\<bar> + 1 < 10^4300\<close>), and every rate, fixed charge, duty and GST
  percentage (negative, infinite or NaN included) it returns a bill and no error. A negative
  consumption is not refused either: the bill then records the first slab alone, with 0
  units.
\<close>

theorem calculate_bill_never_rejects:
  assumes "is_double units"
      and "\<forall>s\<in>set slabs. \<bar>upto s\<bar> + 1 < 10 ^ int_max_str_digits"
  shows "\<exists>b. calculate_bill (Fin units) slabs fixed_charge duty_pct gst_pct = Inr b
           \<and> (units < 0 \<longrightarrow>
                map det_units (bill_slab_details b) = (if slabs = [] then [] else [PyInt 0]))"
proof -
  have p0: "\<bar>0::int\<bar> + 1 < 10 ^ int_max_str_digits" by (rule small_printable) simp
  obtain e ds where l: "slab_loop slabs (Fin units) (Fin 0) [] 0 = Inr (e, ds)"
    using slab_loop_total [OF assms(1) p0 assms(2)] by blast
  have "map det_units ds = (if slabs = [] then [] else [PyInt 0])" if neg: "units < 0"
  proof (cases slabs)
    case Nil
    then show ?thesis using l by simp
  next
    case (Cons s rest)
    have "units \<le> 0" using neg by simp
    from slab_loop_nonpos [OF assms(1) this, of s rest "Fin 0" "[]" 0] l Cons
    show ?thesis by (auto split: sum.splits)
  qed
  then show ?thesis using l by (simp add: calculate_bill_def Let_def)
qed

theorem calculate_bill_never_rejects_witness:
  "is_double (- 5)
   \<and> \<bar>0::int\<bar> + 1 < 10 ^ int_max_str_digits \<and> \<bar>100::int\<bar> + 1 < 10 ^ int_max_str_digits
   \<and> (\<exists>b. calculate_bill (Fin (- 5))
            [\<lparr>upto = 0, rate = Fin 8\<rparr>, \<lparr>upto = 100, rate = Fin (- 3)\<rparr>]
            (Fin (- 50)) (Fin (- 5)) (Fin 5) = Inr b
          \<and> map det_units (bill_slab_details b) = [PyInt 0])"
proof -
  have h: "is_double (- 5)" by (simp add: is_double_def fl_minus fl_numeral)
  have k: "\<forall>s\<in>set [\<lparr>upto = 0, rate = Fin 8\<rparr>, \<lparr>upto = 100, rate = Fin (- 3)\<rparr>].
             \<bar>upto s\<bar> + 1 < 10 ^ int_max_str_digits"
    using small_printable [of 0] small_printable [of 100] by simp
  show ?thesis
    using calculate_bill_never_rejects [OF h k, of "Fin (- 50)" "Fin (- 5)" "Fin 5"] h
      small_printable [of 0] small_printable [of 100]
    by simp
qed

section \<open>Zero consumption\<close>

text \<open>
  C10 as stated fails: a rate may be infinite (the front end accepts the input \<^verbatim>\<open>inf\<close>),
  and \<^verbatim>\<open>0 * inf\<close> is NaN. For zero units on the single slab of limit 100 and rate \<open>inf\<close> the
  one record has the charge NaN, not 0.
\<close>

theorem zero_units_infinite_rate_counterexample:
  "map_sum id bill_slab_details
     (calculate_bill (Fin 0) [\<lparr>upto = 100, rate = PInf\<rparr>] (Fin 50) (Fin 5) (Fin 5)) =
   Inr [\<lparr>det_slab_range = ''1-100'', det_units = PyInt 0, det_rate = PInf, det_charge = NaN\<rparr>]"
  by (simp add: bill_eval)

text \<open>
  C10 as the code behaves. For zero units and a non-empty slab list whose first slab has a
  finite rate and a limit \<open>k\<close> that can be printed (\<open>\<bar>k\<bar> < 10^4300\<close>), the bill has exactly
  one slab record: the first slab, labelled from 1, with 0 units and 0 charge. The loop body
  runs once before \<^verbatim>\<open>remaining <= 0\<close> breaks it, so later slabs leave no record, whatever
  they are.
\<close>

theorem zero_units_single_record:
  assumes "\<bar>k\<bar> < 10 ^ int_max_str_digits"
  shows "\<exists>b. calculate_bill (Fin 0) (\<lparr>upto = k, rate = Fin rt\<rparr> # rest)
            fixed_charge duty_pct gst_pct = Inr b
           \<and> bill_slab_details b =
               [\<lparr>det_slab_range = ''1-'' @ (if k \<noteq> 0 then int_digits k else ''above''),
                 det_units = PyInt 0, det_rate = Fin rt, det_charge = Fin 0\<rparr>]"
proof -
  have p0: "\<bar>0::int\<bar> + 1 < 10 ^ int_max_str_digits" by (rule small_printable) simp
  have "slab_range \<lparr>upto = k, rate = Fin rt\<rparr> 0 =
          Inr (''1-'' @ (if k \<noteq> 0 then int_digits k else ''above''))"
    using slab_range_ok [OF p0, of "\<lparr>upto = k, rate = Fin rt\<rparr>"] assms
    by (simp add: int_digits_1)
  then show ?thesis
    using slab_loop_nonpos [of 0 "\<lparr>upto = k, rate = Fin rt\<rparr>" rest "Fin 0" "[]" 0]
    by (simp add: calculate_bill_def Let_def)
qed

theorem zero_units_single_record_witness:
  "\<bar>100::int\<bar> < 10 ^ int_max_str_digits
   \<and> (\<exists>b. calculate_bill (Fin 0)
             [\<lparr>upto = 100, rate = Fin 3\<rparr>, \<lparr>upto = 200, rate = Fin (9 / 2)\<rparr>,
              \<lparr>upto = 0, rate = Fin 8\<rparr>]
             (Fin 50) (Fin 5) (Fin 5) = Inr b
          \<and> bill_slab_details b =
              [\<lparr>det_slab_range = ''1-100'', det_units = PyInt 0, det_rate = Fin 3,
                det_charge = Fin 0\<rparr>])"
proof -
  have h: "\<bar>100::int\<bar> < 10 ^ int_max_str_digits" using small_printable [of 100] by simp
  show ?thesis
    using zero_units_single_record [OF h, of 3
        "[\<lparr>upto = 200, rate = Fin (9 / 2)\<rparr>, \<lparr>upto = 0, rate = Fin 8\<rparr>]"
        "Fin 50" "Fin 5" "Fin 5"] h
    by (simp add: int_digits_def str_nat.simps)
qed

section \<open>The surcharge steps\<close>

lemma rhe_tie_even: assumes "\<bar>x - of_int (rhe x)\<bar> = 1/2" shows "even (rhe x)"
proof -
  define f where "f = \<lfloor>x\<rfloor>"
  define d where "d = x - of_int f"
  have d: "0 \<le> d" "d < 1" unfolding d_def f_def by linarith+
  have x: "x = of_int f + d" by (simp add: d_def)
  have r: "rhe x = (if d < 1/2 then f else if 1/2 < d then f + 1
                    else if even f then f else f + 1)"
    unfolding rhe_def Let_def d_def f_def by (rule refl)
  consider "d < 1/2" | "1/2 < d" | "d = 1/2" by linarith
  then show ?thesis
  proof cases
    case 1
    then have "rhe x = f" using r by simp
    then show ?thesis using assms 1 d x by simp
  next
    case 2
    then have "rhe x = f + 1" using r by simp
    then show ?thesis using assms 2 d x by simp
  next
    case 3
    then have "rhe x = (if even f then f else f + 1)" using r by simp
    then show ?thesis by simp
  qed
qed

lemma rhe_nearest: "\<bar>x - of_int (rhe x)\<bar> \<le> 1/2"
  using rhe_bounds [of x] by linarith

lemma round2_Fin:
  assumes "round2 x = Fin y"
  shows "\<exists>a n. x = Fin a \<and> rounded_to_cents a n y"
proof (cases x)
  case (Fin a)
  have "rounded_to_cents a (rhe (100 * a)) y"
    unfolding rounded_to_cents_def
    using assms Fin rhe_nearest [of "100 * a"] rhe_tie_even [of "100 * a"] by simp
  then show ?thesis using Fin by blast
qed (use assms in simp_all)

lemma fadd_Fin:
  assumes "fadd x y = Fin z"
  shows "\<exists>a b. x = Fin a \<and> y = Fin b \<and> fl (a + b) = Fin z"
  using assms by (cases x; cases y) simp_all

lemma fmul_Fin:
  assumes "fmul x y = Fin z"
  shows "\<exists>a b. x = Fin a \<and> y = Fin b \<and> fl (a * b) = Fin z"
  using assms by (cases x; cases y) (simp_all split: if_splits)

lemma fdiv_100_Fin:
  assumes "fdiv_100 x = Fin z"
  shows "\<exists>a. x = Fin a \<and> fl (a / 100) = Fin z"
  using assms by (cases x) simp_all

lemma surcharge_steps_finite:
  assumes "calculate_bill units slabs fixed_charge duty_pct gst_pct = Inr b"
      and "bill_total_bill b = Fin t"
  shows "\<exists>e0 ds dp gp fc e p ud d us1 us s q ug g ut ne nd ns ng nt.
           slab_loop slabs units (Fin 0) [] 0 = Inr (Fin e0, ds)
         \<and> duty_pct = Fin dp \<and> gst_pct = Fin gp \<and> fixed_charge = Fin fc
         \<and> bill_energy_charge b = Fin e \<and> rounded_to_cents e0 ne e
         \<and> fl (dp / 100) = Fin p \<and> fl (p * e) = Fin ud
         \<and> bill_duty b = Fin d \<and> rounded_to_cents ud nd d
         \<and> fl (e + d) = Fin us1 \<and> fl (us1 + fc) = Fin us
         \<and> bill_subtotal b = Fin s \<and> rounded_to_cents us ns s
         \<and> fl (gp / 100) = Fin q \<and> fl (q * s) = Fin ug
         \<and> bill_gst b = Fin g \<and> rounded_to_cents ug ng g
         \<and> fl (s + g) = Fin ut \<and> rounded_to_cents ut nt t"
proof (cases "slab_loop slabs units (Fin 0) [] 0")
  case (Inl err)
  with assms(1) show ?thesis by (simp add: calculate_bill_def)
next
  case (Inr res)
  obtain x0 ds where res: "res = (x0, ds)" by (cases res)
  define en where "en = round2 x0"
  define du where "du = round2 (fmul (fdiv_100 duty_pct) en)"
  define su where "su = round2 (fadd (fadd en du) fixed_charge)"
  define gs where "gs = round2 (fmul (fdiv_100 gst_pct) su)"
  have b: "bill_energy_charge b = en" "bill_duty b = du" "bill_subtotal b = su"
      "bill_gst b = gs" "bill_total_bill b = round2 (fadd su gs)"
    using assms(1) Inr res
    by (auto simp add: calculate_bill_def Let_def en_def du_def su_def gs_def)
  from assms(2) b(5) have "round2 (fadd su gs) = Fin t" by simp
  then obtain ut nt where 1: "fadd su gs = Fin ut" "rounded_to_cents ut nt t"
    using round2_Fin by blast
  from 1(1) obtain s g where 2: "su = Fin s" "gs = Fin g" "fl (s + g) = Fin ut"
    using fadd_Fin by blast
  from 2(2) obtain ug ng where 3: "fmul (fdiv_100 gst_pct) su = Fin ug" "rounded_to_cents ug ng g"
    unfolding gs_def using round2_Fin by blast
  from 3(1) 2(1) obtain q where 4: "fdiv_100 gst_pct = Fin q" "fl (q * s) = Fin ug"
    using fmul_Fin [of "fdiv_100 gst_pct" su ug] by auto
  from 4(1) obtain gp where 5: "gst_pct = Fin gp" "fl (gp / 100) = Fin q"
    using fdiv_100_Fin by blast
  from 2(1) obtain us ns where 6: "fadd (fadd en du) fixed_charge = Fin us"
      "rounded_to_cents us ns s"
    unfolding su_def using round2_Fin by blast
  from 6(1) obtain us1 fc where 7: "fadd en du = Fin us1" "fixed_charge = Fin fc"
      "fl (us1 + fc) = Fin us"
    using fadd_Fin by blast
  from 7(1) obtain e d where 8: "en = Fin e" "du = Fin d" "fl (e + d) = Fin us1"
    using fadd_Fin by blast
  from 8(2) obtain ud nd where 9: "fmul (fdiv_100 duty_pct) en = Fin ud"
      "rounded_to_cents ud nd d"
    unfolding du_def using round2_Fin by blast
  from 9(1) 8(1) obtain p where 10: "fdiv_100 duty_pct = Fin p" "fl (p * e) = Fin ud"
    using fmul_Fin [of "fdiv_100 duty_pct" en ud] by auto
  from 10(1) obtain dp where 11: "duty_pct = Fin dp" "fl (dp / 100) = Fin p"
    using fdiv_100_Fin by blast
  from 8(1) obtain e0 ne where 12: "x0 = Fin e0" "rounded_to_cents e0 ne e"
    unfolding en_def using round2_Fin by blast
  have l: "slab_loop slabs units (Fin 0) [] 0 = Inr (Fin e0, ds)"
    using Inr res 12(1) by simp
  show ?thesis
    apply (rule exI [of _ e0], rule exI [of _ ds], rule exI [of _ dp], rule exI [of _ gp])
    apply (rule exI [of _ fc], rule exI [of _ e], rule exI [of _ p], rule exI [of _ ud])
    apply (rule exI [of _ d], rule exI [of _ us1], rule exI [of _ us], rule exI [of _ s])
    apply (rule exI [of _ q], rule exI [of _ ug], rule exI [of _ g], rule exI [of _ ut])
    apply (rule exI [of _ ne], rule exI [of _ nd], rule exI [of _ ns], rule exI [of _ ng])
    apply (rule exI [of _ nt])
    using l b 1 2 3 4 5 6 7 8 9 10 11 12 apply simp
    done
qed

text \<open>
  C2. Whenever \<^verbatim>\<open>calculate_bill\<close> returns a bill, for any input, its five aggregate figures
  come from the loop's accumulated energy charge \<open>x0\<close> by the step sequence of the source,
  each step rounded on its own and the later ones computed from the rounded earlier ones:
  the energy charge is \<^verbatim>\<open>round(x0, 2)\<close>, the duty is the rounded product of
  \<^verbatim>\<open>duty_pct/100.0\<close> and the energy charge, the subtotal the rounded sum of energy charge,
  duty and fixed charge, the GST the rounded product of \<^verbatim>\<open>gst_pct/100.0\<close> and the subtotal,
  the total the rounded sum of subtotal and GST. When the total is finite, so are the
  percentages, the fixed charge and \<open>x0\<close>, and these steps are what they are meant to be:
  every product, quotient and sum is the exact one rounded to the nearest float, and every
  rounding to two decimals (\<open>rounded_to_cents\<close>) yields the float of the nearest whole number
  of cents, the even one on a tie.
\<close>

theorem calculate_bill_surcharge_steps:
  assumes "calculate_bill units slabs fixed_charge duty_pct gst_pct = Inr b"
  shows "\<exists>x0 ds.
           slab_loop slabs units (Fin 0) [] 0 = Inr (x0, ds)
         \<and> bill_energy_charge b = round2 x0
         \<and> bill_duty b = round2 (fmul (fdiv_100 duty_pct) (bill_energy_charge b))
         \<and> bill_subtotal b =
             round2 (fadd (fadd (bill_energy_charge b) (bill_duty b)) fixed_charge)
         \<and> bill_gst b = round2 (fmul (fdiv_100 gst_pct) (bill_subtotal b))
         \<and> bill_total_bill b = round2 (fadd (bill_subtotal b) (bill_gst b))
         \<and> (\<forall>t. bill_total_bill b = Fin t \<longrightarrow>
              (\<exists>e0 dp gp fc e p ud d us1 us s q ug g ut ne nd ns ng nt.
                 x0 = Fin e0
               \<and> duty_pct = Fin dp \<and> gst_pct = Fin gp \<and> fixed_charge = Fin fc
               \<and> bill_energy_charge b = Fin e \<and> rounded_to_cents e0 ne e
               \<and> fl (dp / 100) = Fin p \<and> fl (p * e) = Fin ud
               \<and> bill_duty b = Fin d \<and> rounded_to_cents ud nd d
               \<and> fl (e + d) = Fin us1 \<and> fl (us1 + fc) = Fin us
               \<and> bill_subtotal b = Fin s \<and> rounded_to_cents us ns s
               \<and> fl (gp / 100) = Fin q \<and> fl (q * s) = Fin ug
               \<and> bill_gst b = Fin g \<and> rounded_to_cents ug ng g
               \<and> fl (s + g) = Fin ut \<and> rounded_to_cents ut nt t))"
proof (cases "slab_loop slabs units (Fin 0) [] 0")
  case (Inl err)
  with assms show ?thesis by (simp add: calculate_bill_def)
next
  case (Inr res)
  obtain x0 ds where res: "res = (x0, ds)" by (cases res)
  have l: "slab_loop slabs units (Fin 0) [] 0 = Inr (x0, ds)" using Inr res by simp
  have b: "bill_energy_charge b = round2 x0"
      "bill_duty b = round2 (fmul (fdiv_100 duty_pct) (bill_energy_charge b))"
      "bill_subtotal b =
         round2 (fadd (fadd (bill_energy_charge b) (bill_duty b)) fixed_charge)"
      "bill_gst b = round2 (fmul (fdiv_100 gst_pct) (bill_subtotal b))"
      "bill_total_bill b = round2 (fadd (bill_subtotal b) (bill_gst b))"
    using assms l by (auto simp add: calculate_bill_def Let_def)
  have fin: "\<exists>e0 dp gp fc e p ud d us1 us s q ug g ut ne nd ns ng nt.
                 x0 = Fin e0
               \<and> duty_pct = Fin dp \<and> gst_pct = Fin gp \<and> fixed_charge = Fin fc
               \<and> bill_energy_charge b = Fin e \<and> rounded_to_cents e0 ne e
               \<and> fl (dp / 100) = Fin p \<and> fl (p * e) = Fin ud
               \<and> bill_duty b = Fin d \<and> rounded_to_cents ud nd d
               \<and> fl (e + d) = Fin us1 \<and> fl (us1 + fc) = Fin us
               \<and> bill_subtotal b = Fin s \<and> rounded_to_cents us ns s
               \<and> fl (gp / 100) = Fin q \<and> fl (q * s) = Fin ug
               \<and> bill_gst b = Fin g \<and> rounded_to_cents ug ng g
               \<and> fl (s + g) = Fin ut \<and> rounded_to_cents ut nt t"
    if t: "bill_total_bill b = Fin t" for t
    using surcharge_steps_finite [OF assms t] l
    by (elim exE conjE) (simp, blast)
  show ?thesis
    apply (rule exI [of _ x0], rule exI [of _ ds])
    using l b fin apply blast
    done
qed

lemma loop_250:
  "\<exists>ds. slab_loop default_slabs (Fin 250) (Fin 0) [] 0 = Inr (Fin 1050, ds)"
  by (simp add: bill_eval ex250_fl0 ex250_fl1 ex250_fl2 ex250_fl3 ex250_fl4 ex250_fl5 ex250_fl6 ex250_fl7 ex250_fl8 ex250_fl9 ex250_fl10 ex250_rhe0 ex250_rhe1)

lemma gst_250_rounded:
  "rounded_to_cents (461 / 8) 5762 (8109294079033999 / 140737488355328)"
  by (simp add: rounded_to_cents_def ex250_fl6)

theorem calculate_bill_surcharge_steps_witness:
  "\<exists>b ds ne nd ns nt.
     calculate_bill (Fin 250) default_slabs (Fin 50) (Fin 5) (Fin 5) = Inr b
   \<and> bill_total_bill b = Fin (1330541011004293 / 1099511627776)
   \<and> slab_loop default_slabs (Fin 250) (Fin 0) [] 0 = Inr (Fin 1050, ds)
   \<and> bill_energy_charge b = Fin 1050 \<and> rounded_to_cents 1050 ne 1050
   \<and> fl (5 / 100) = Fin (3602879701896397 / 72057594037927936)
   \<and> fl (3602879701896397 / 72057594037927936 * 1050) = Fin (105 / 2)
   \<and> bill_duty b = Fin (105 / 2) \<and> rounded_to_cents (105 / 2) nd (105 / 2)
   \<and> fl (1050 + 105 / 2) = Fin (2205 / 2) \<and> fl (2205 / 2 + 50) = Fin (2305 / 2)
   \<and> bill_subtotal b = Fin (2305 / 2) \<and> rounded_to_cents (2305 / 2) ns (2305 / 2)
   \<and> fl (3602879701896397 / 72057594037927936 * (2305 / 2)) = Fin (461 / 8)
   \<and> bill_gst b = Fin (8109294079033999 / 140737488355328)
   \<and> rounded_to_cents (461 / 8) 5762 (8109294079033999 / 140737488355328)
   \<and> fl (2305 / 2 + 8109294079033999 / 140737488355328)
       = Fin (1330541011004293 / 1099511627776)
   \<and> rounded_to_cents (1330541011004293 / 1099511627776) nt
       (1330541011004293 / 1099511627776)"
proof -
  define B where "B =
     \<lparr>bill_units = Fin 250,
        bill_slab_details =
          [\<lparr>det_slab_range = ''1-100'', det_units = PyInt 100, det_rate = Fin 3,
             det_charge = Fin 300\<rparr>,
           \<lparr>det_slab_range = ''101-200'', det_units = PyInt 100, det_rate = Fin (9 / 2),
             det_charge = Fin 450\<rparr>,
           \<lparr>det_slab_range = ''201-300'', det_units = PyFloat (Fin 50), det_rate = Fin 6,
             det_charge = Fin 300\<rparr>],
        bill_energy_charge = Fin 1050, bill_fixed_charge = Fin 50,
        bill_duty_pct = Fin 5, bill_duty = Fin (105 / 2),
        bill_gst_pct = Fin 5, bill_gst = Fin (8109294079033999 / 140737488355328),
        bill_subtotal = Fin (2305 / 2),
        bill_total_bill = Fin (1330541011004293 / 1099511627776)\<rparr>"
  have h1: "calculate_bill (Fin 250) default_slabs (Fin 50) (Fin 5) (Fin 5) = Inr B"
    unfolding B_def by (rule bill_250)
  have h2: "bill_total_bill B = Fin (1330541011004293 / 1099511627776)"
    by (simp add: B_def)
  have f: "bill_energy_charge B = Fin 1050" "bill_duty B = Fin (105 / 2)"
      "bill_subtotal B = Fin (2305 / 2)"
      "bill_gst B = Fin (8109294079033999 / 140737488355328)"
    by (simp_all add: B_def)
  obtain e0 ds dp gp fc e p ud d us1 us s q ug g ut ne nd ns ng nt where c:
      "slab_loop default_slabs (Fin 250) (Fin 0) [] 0 = Inr (Fin e0, ds)"
      "Fin 5 = Fin dp" "Fin 5 = Fin gp" "Fin 50 = Fin fc"
      "bill_energy_charge B = Fin e" "rounded_to_cents e0 ne e"
      "fl (dp / 100) = Fin p" "fl (p * e) = Fin ud"
      "bill_duty B = Fin d" "rounded_to_cents ud nd d"
      "fl (e + d) = Fin us1" "fl (us1 + fc) = Fin us"
      "bill_subtotal B = Fin s" "rounded_to_cents us ns s"
      "fl (gp / 100) = Fin q" "fl (q * s) = Fin ug"
      "bill_gst B = Fin g" "rounded_to_cents ug ng g"
      "fl (s + g) = Fin ut"
      "rounded_to_cents ut nt (1330541011004293 / 1099511627776)"
  proof -
    obtain x0 ds where l: "slab_loop default_slabs (Fin 250) (Fin 0) [] 0 = Inr (x0, ds)"
      and fin: "\<forall>t. bill_total_bill B = Fin t \<longrightarrow>
              (\<exists>e0 dp gp fc e p ud d us1 us s q ug g ut ne nd ns ng nt.
                 x0 = Fin e0
               \<and> Fin 5 = Fin dp \<and> Fin 5 = Fin gp \<and> Fin 50 = Fin fc
               \<and> bill_energy_charge B = Fin e \<and> rounded_to_cents e0 ne e
               \<and> fl (dp / 100) = Fin p \<and> fl (p * e) = Fin ud
               \<and> bill_duty B = Fin d \<and> rounded_to_cents ud nd d
               \<and> fl (e + d) = Fin us1 \<and> fl (us1 + fc) = Fin us
               \<and> bill_subtotal B = Fin s \<and> rounded_to_cents us ns s
               \<and> fl (gp / 100) = Fin q \<and> fl (q * s) = Fin ug
               \<and> bill_gst B = Fin g \<and> rounded_to_cents ug ng g
               \<and> fl (s + g) = Fin ut \<and> rounded_to_cents ut nt t)"
      using calculate_bill_surcharge_steps [OF h1] by (elim exE conjE)
    from fin [rule_format, OF h2] l show ?thesis
      by (elim exE conjE) (rule that, simp, assumption+)
  qed
  have v1: "dp = 5" "gp = 5" "fc = 50" using c(2,3,4) by simp_all
  have v2: "e = 1050" "d = 105 / 2" "s = 2305 / 2"
      "g = 8109294079033999 / 140737488355328"
    using c(5,9,13,17) f by simp_all
  have v3: "e0 = 1050" using c(1) loop_250 by auto
  have p: "p = 3602879701896397 / 72057594037927936" using c(7) v1 by (simp add: ex250_fl0)
  have q: "q = 3602879701896397 / 72057594037927936" using c(15) v1 by (simp add: ex250_fl0)
  have ud: "ud = 105 / 2" using c(8) p v2 by (simp add: ex250_fl1)
  have us1: "us1 = 2205 / 2" using c(11) v2 by (simp add: ex250_fl3)
  have us: "us = 2305 / 2" using c(12) us1 v1 by (simp add: ex250_fl4)
  have ug: "ug = 461 / 8" using c(16) q v2 by (simp add: ex250_fl5)
  have ut: "ut = 1330541011004293 / 1099511627776" using c(19) v2 by (simp add: ex250_fl7)
  show ?thesis
    apply (rule exI [of _ B], rule exI [of _ ds], rule exI [of _ ne], rule exI [of _ nd])
    apply (rule exI [of _ ns], rule exI [of _ nt])
    using h1 h2 f c(1,6,10,14,20) v1 v2 v3 ud us ut gst_250_rounded
    apply (simp add: ex250_fl0 ex250_fl1 ex250_fl3 ex250_fl4 ex250_fl5 ex250_fl7)
    done
qed

section \<open>The unbounded slab\<close>

lemma slab_loop_unbounded:
  assumes "is_double r" "upto s = 0"
  shows "slab_loop (s # post) (Fin r) e ds p =
           (case slab_range s p of
              Inl er \<Rightarrow> Inl er
            | Inr l \<Rightarrow>
               Inr (fadd e (fmul (Fin (max 0 r)) (rate s)),
                    ds @ [\<lparr>det_slab_range = l,
                            det_units = (if 0 < r then PyFloat (Fin r) else PyInt 0),
                            det_rate = rate s,
                            det_charge = round2 (fmul (Fin (max 0 r)) (rate s))\<rparr>]))"
proof (cases "0 < r")
  case True
  have u: "units_in_slab s (Fin r) p = PyFloat (Fin r)"
    using True assms(2) by (simp add: units_in_slab_Fin)
  have f: "fsub (Fin r) (Fin r) = Fin 0" by (simp add: fsub_Fin)
  have m: "max 0 r = r" using True by simp
  show ?thesis using True by (simp add: u f m Let_def split: sum.splits)
next
  case False
  then have le: "r \<le> 0" by simp
  then have m: "max 0 r = 0" by simp
  from slab_loop_nonpos [OF assms(1) le, of s post e ds p] show ?thesis
    by (simp only: m False if_False)
qed

lemma slab_loop_cut:
  assumes "is_double r" "upto s = 0"
  shows "slab_loop (pre @ s # post) (Fin r) e ds p = slab_loop (pre @ [s]) (Fin r) e ds p"
  using assms(1)
proof (induction pre arbitrary: r e ds p)
  case Nil
  show ?case
    using slab_loop_unbounded [OF Nil assms(2), of post e ds p]
      slab_loop_unbounded [OF Nil assms(2), of "[]" e ds p]
    by simp
next
  case (Cons a pre)
  obtain u r' where st: "to_float (units_in_slab a (Fin r) p) = Inr (Fin u)"
      "fsub (Fin r) (Fin u) = Fin r'" "is_double r'"
    using slab_step [OF Cons.prems, of a p] by blast
  show ?case using st Cons.IH [OF st(3)] by (simp add: Let_def split: sum.splits)
qed

text \<open>
  C9 as stated fails for an infinite consumption (the front end accepts the input \<^verbatim>\<open>inf\<close>):
  the unbounded slab takes \<open>inf\<close>, the remainder \<^verbatim>\<open>inf - inf\<close> is NaN, the test
  \<^verbatim>\<open>remaining <= 0\<close> is false and the loop goes on to the next slab, which leaves a record.
\<close>

theorem unbounded_slab_infinite_units_counterexample:
  "map_sum id bill_slab_details
     (calculate_bill PInf [\<lparr>upto = 0, rate = Fin 8\<rparr>, \<lparr>upto = 100, rate = Fin 3\<rparr>]
        (Fin 50) (Fin 5) (Fin 5)) =
   Inr [\<lparr>det_slab_range = ''1-above'', det_units = PyFloat PInf, det_rate = Fin 8,
          det_charge = PInf\<rparr>,
        \<lparr>det_slab_range = ''1-100'', det_units = PyInt 0, det_rate = Fin 3,
          det_charge = Fin 0\<rparr>]"
  by (simp add: bill_eval)

text \<open>
  C9 as the code behaves, for every finite consumption. When the loop reaches a slab with
  the unbounded sentinel with a (finite) remainder \<open>r\<close>, at whatever position, it gives the
  slab all of it, \<^verbatim>\<open>max(0, r)\<close>, adds the charge and the record and returns: the slabs
  \<open>post\<close> after it do not matter (first part). Hence the bill for a list with an unbounded
  slab in the middle is the bill for the list cut after that slab (second part).
\<close>

theorem unbounded_slab_stops:
  assumes "upto s = 0"
  shows "(is_double r \<longrightarrow>
            slab_loop (s # post) (Fin r) e ds p =
              (case slab_range s p of
                 Inl er \<Rightarrow> Inl er
               | Inr l \<Rightarrow>
                  Inr (fadd e (fmul (Fin (max 0 r)) (rate s)),
                       ds @ [\<lparr>det_slab_range = l,
                               det_units = (if 0 < r then PyFloat (Fin r) else PyInt 0),
                               det_rate = rate s,
                               det_charge = round2 (fmul (Fin (max 0 r)) (rate s))\<rparr>])))
       \<and> (is_double units \<longrightarrow>
            calculate_bill (Fin units) (pre @ s # post) fixed_charge duty_pct gst_pct =
            calculate_bill (Fin units) (pre @ [s]) fixed_charge duty_pct gst_pct)"
  using slab_loop_unbounded [OF _ assms, of r post e ds p]
    slab_loop_cut [OF _ assms, of units pre post "Fin 0" "[]" 0]
  by (simp add: calculate_bill_def)

theorem unbounded_slab_stops_witness:
  "upto \<lparr>upto = 0, rate = Fin 8\<rparr> = 0 \<and> is_double 50 \<and> is_double 250
   \<and> slab_loop
        (\<lparr>upto = 0, rate = Fin 8\<rparr>
           # [\<lparr>upto = 200, rate = Fin (9 / 2)\<rparr>, \<lparr>upto = 300, rate = Fin 6\<rparr>])
        (Fin 50) (Fin 300) [] 100 =
       Inr (Fin 700,
            [\<lparr>det_slab_range = ''101-above'', det_units = PyFloat (Fin 50), det_rate = Fin 8,
               det_charge = Fin 400\<rparr>])
   \<and> calculate_bill (Fin 250)
        ([\<lparr>upto = 100, rate = Fin 3\<rparr>] @ \<lparr>upto = 0, rate = Fin 8\<rparr>
           # [\<lparr>upto = 200, rate = Fin (9 / 2)\<rparr>, \<lparr>upto = 300, rate = Fin 6\<rparr>])
        (Fin 50) (Fin 5) (Fin 5) =
     calculate_bill (Fin 250) ([\<lparr>upto = 100, rate = Fin 3\<rparr>] @ [\<lparr>upto = 0, rate = Fin 8\<rparr>])
        (Fin 50) (Fin 5) (Fin 5)"
proof -
  have h: "upto \<lparr>upto = 0, rate = Fin 8\<rparr> = 0" by simp
  have d: "is_double 50" "is_double 250" by (simp_all add: is_double_def fl_numeral)
  show ?thesis
    using unbounded_slab_stops [OF h, where r = 50 and e = "Fin 300" and ds = "[]" and p = 100
        and units = 250 and pre = "[\<lparr>upto = 100, rate = Fin 3\<rparr>]"
        and post = "[\<lparr>upto = 200, rate = Fin (9 / 2)\<rparr>, \<lparr>upto = 300, rate = Fin 6\<rparr>]"
        and fixed_charge = "Fin 50" and duty_pct = "Fin 5" and gst_pct = "Fin 5"] h d
    by (simp add: slab_range_def str_int_small int_digits_def str_nat.simps fl_numeral
          del: slab_loop.simps)
qed

section \<open>All units are allocated\<close>

lemma sum_units_snoc:
  "sum_units (ns @ [n]) =
     (case sum_units ns of
        None \<Rightarrow> None
      | Some a \<Rightarrow> (case exact_value n of None \<Rightarrow> None | Some v \<Rightarrow> Some (a + v)))"
  by (induction ns) (auto split: option.splits)

lemma slab_loop_sum:
  assumes "is_double r" "0 \<le> r" "r \<le> 2 ^ 53"
      and "\<exists>s\<in>set slabs. upto s = 0"
      and "sum_units (map det_units ds) = Some a"
      and "slab_loop slabs (Fin r) e ds p = Inr (e', ds')"
  shows "sum_units (map det_units ds') = Some (a + r)"
  using assms
proof (induction slabs arbitrary: r e ds p a)
  case Nil
  then show ?case by simp
next
  case (Cons s slabs)
  obtain v u r' where st: "exact_value (units_in_slab s (Fin r) p) = Some v"
      "to_float (units_in_slab s (Fin r) p) = Inr (Fin u)"
      "fsub (Fin r) (Fin u) = Fin r'" "is_double r'"
      "0 \<le> r \<longrightarrow> 0 \<le> v \<and> v \<le> r \<and> 0 \<le> u \<and> u \<le> r \<and> 0 \<le> r' \<and> r' \<le> r"
      "0 \<le> r \<and> r \<le> 2 ^ 53 \<longrightarrow> u = v \<and> r' = r - v"
      "upto s = 0 \<and> 0 \<le> r \<longrightarrow> r' = 0 \<and> v = r"
    using slab_step [OF Cons.prems(1), of s p] by blast
  have r': "0 \<le> r'" "r' \<le> 2 ^ 53" "r' = r - v"
    using st(5,6) Cons.prems(2,3) by auto
  obtain l where l: "slab_range s p = Inr l"
    using Cons.prems(6) st(2) by (auto simp add: Let_def split: sum.splits)
  define ds1 where "ds1 = ds @ [\<lparr>det_slab_range = l, det_units = units_in_slab s (Fin r) p,
      det_rate = rate s, det_charge = round2 (fmul (Fin u) (rate s))\<rparr>]"
  have s1: "sum_units (map det_units ds1) = Some (a + v)"
    using Cons.prems(5) st(1) by (simp add: ds1_def sum_units_snoc)
  show ?case
  proof (cases "r' \<le> 0")
    case True
    then have "r' = 0" using r'(1) by simp
    then have "v = r" using r'(3) by simp
    moreover have "ds' = ds1"
      using Cons.prems(6) st(2,3) l True by (simp add: Let_def ds1_def)
    ultimately show ?thesis using s1 by simp
  next
    case False
    then have "upto s \<noteq> 0" using st(7) Cons.prems(2) by auto
    then have ex: "\<exists>s\<in>set slabs. upto s = 0" using Cons.prems(4) by auto
    have run: "slab_loop slabs (Fin r') (fadd e (fmul (Fin u) (rate s))) ds1 (upto s)
                 = Inr (e', ds')"
      using Cons.prems(6) st(2,3) l False by (simp add: Let_def ds1_def)
    have "sum_units (map det_units ds') = Some (a + v + r')"
      by (rule Cons.IH [OF st(4) r'(1,2) ex s1 run])
    then show ?thesis using r'(3) by simp
  qed
qed

lemma fl_above_2_53: "fl 9007199254740993 = Fin 9007199254740992"
  using fl_eval [of "9007199254740993" "53" 4503599627370496] by simp

lemma is_double_2_53_2: "is_double 9007199254740994"
  unfolding is_double_def
  using fl_eval [of "9007199254740994" "53" 4503599627370497] by simp

text \<open>
  C1 as stated fails for large consumptions, where \<^verbatim>\<open>remaining -= units_in_slab\<close> rounds.
  The float 9007199254740994 (\<open>2^53 + 2\<close>) on a first slab of 1 unit and an unbounded second
  slab: the first slab takes 1, the remainder \<open>2^53 + 1\<close> is rounded to the float \<open>2^53\<close>,
  which the second slab takes. The allocations sum to \<open>2^53 + 1\<close>: one unit is lost.
\<close>

theorem allocation_sum_counterexample:
  "is_double 9007199254740994
   \<and> map_sum id allocated_units
       (calculate_bill (Fin 9007199254740994)
          [\<lparr>upto = 1, rate = Fin 3\<rparr>, \<lparr>upto = 0, rate = Fin 8\<rparr>] (Fin 50) (Fin 5) (Fin 5))
     = Inr (Some 9007199254740993)"
  by (simp add: is_double_2_53_2 allocated_units_def bill_eval fl_above_2_53)

text \<open>
  C1 as the code behaves. For every float consumption from 0 up to \<open>2^53\<close> and every
  non-empty slab list whose final slab is the unbounded sentinel (and whose limits \<open>k\<close> can
  be printed in a label, \<open>\<bar>k\<bar> + 1 < 10^4300\<close>), \<^verbatim>\<open>calculate_bill\<close> returns a bill, and the
  exact sum of the quantities it allocates to the slabs is the consumption. Up to \<open>2^53\<close>
  the subtractions of the loop are exact; above, they round.
\<close>

theorem allocation_sum_exact:
  assumes "is_double units" "0 \<le> units" "units \<le> 2 ^ 53"
      and "slabs \<noteq> []" "upto (last slabs) = 0"
      and "\<forall>s\<in>set slabs. \<bar>upto s\<bar> + 1 < 10 ^ int_max_str_digits"
  shows "\<exists>b. calculate_bill (Fin units) slabs fixed_charge duty_pct gst_pct = Inr b
           \<and> allocated_units b = Some units"
proof -
  have p0: "\<bar>0::int\<bar> + 1 < 10 ^ int_max_str_digits" by (rule small_printable) simp
  obtain e ds where l: "slab_loop slabs (Fin units) (Fin 0) [] 0 = Inr (e, ds)"
    using slab_loop_total [OF assms(1) p0 assms(6)] by blast
  have ex: "\<exists>s\<in>set slabs. upto s = 0"
    using assms(4,5) last_in_set by blast
  have "sum_units (map det_units ds) = Some (0 + units)"
    by (rule slab_loop_sum [OF assms(1,2,3) ex _ l]) simp
  then show ?thesis using l by (simp add: calculate_bill_def Let_def allocated_units_def)
qed

theorem allocation_sum_exact_witness:
  "is_double 250 \<and> (0::rat) \<le> 250 \<and> (250::rat) \<le> 2 ^ 53 \<and> default_slabs \<noteq> []
   \<and> upto (last default_slabs) = 0
   \<and> (\<exists>b. calculate_bill (Fin 250) default_slabs (Fin 50) (Fin 5) (Fin 5) = Inr b
          \<and> allocated_units b = Some 250)"
proof -
  have d: "is_double 250" by (simp add: is_double_def fl_numeral)
  have k: "\<forall>s\<in>set default_slabs. \<bar>upto s\<bar> + 1 < 10 ^ int_max_str_digits"
    using small_printable [of 0] small_printable [of 100] small_printable [of 200]
      small_printable [of 300]
    by (simp add: default_slabs_def)
  have n: "default_slabs \<noteq> []" "upto (last default_slabs) = 0"
    by (simp_all add: default_slabs_def)
  show ?thesis
    using allocation_sum_exact [OF d _ _ n k, of "Fin 50" "Fin 5" "Fin 5"] d n by simp
qed

section \<open>The bill for zero units\<close>

lemma fdiv_100_finite:
  assumes "is_double a"
  shows "\<exists>p. fl (a / 100) = Fin p"
proof (cases "0 \<le> a")
  case True
  have "fl a = Fin a" using assms by (simp add: is_double_def)
  then show ?thesis using fl_mono_fin [of "a / 100" a a] True by auto
next
  case False
  have "fl (- a) = Fin (- a)" using assms is_double_minus [of a] by (simp add: is_double_def)
  then obtain q where "fl (- a / 100) = Fin q"
    using fl_mono_fin [of "- a / 100" "- a" "- a"] False by auto
  then have "fl (a / 100) = Fin (- q)" using fl_minus [of "- a / 100"] by simp
  then show ?thesis by blast
qed

lemma fadd_0_left: "is_float x \<Longrightarrow> fadd (Fin 0) x = x"
  by (cases x) (simp_all add: is_double_def)

lemma zero_loop:
  assumes "\<forall>s\<in>set (take 1 slabs).
             finite_float (rate s) \<and> \<bar>upto s\<bar> < 10 ^ int_max_str_digits"
  shows "\<exists>ds. slab_loop slabs (Fin 0) (Fin 0) [] 0 = Inr (Fin 0, ds)
            \<and> (\<forall>d\<in>set ds. det_units d = PyInt 0 \<and> det_charge d = Fin 0)"
proof (cases slabs)
  case Nil
  then show ?thesis by simp
next
  case (Cons s rest)
  obtain rt where rt: "rate s = Fin rt" using assms Cons by (cases "rate s") simp_all
  have p0: "\<bar>0::int\<bar> + 1 < 10 ^ int_max_str_digits" by (rule small_printable) simp
  have k: "\<bar>upto s\<bar> < 10 ^ int_max_str_digits" using assms Cons by simp
  obtain l where l: "slab_range s 0 = Inr l" using slab_range_ok [OF p0 k] by blast
  show ?thesis
    using slab_loop_nonpos [of 0 s rest "Fin 0" "[]" 0] Cons
    by (simp add: l rt)
qed

lemma fl_exact_1_8: "fl (1 / 8) = Fin (1 / 8)"
  using fl_eval [of "1 / 8" "-3" 4503599627370496] by simp

lemma fl_12_cents: "fl (3 / 25) = Fin (1080863910568919 / 9007199254740992)"
  using fl_eval [of "3 / 25" "-4" 8646911284551352] by simp

lemma rhe_25_2: "rhe (25 / 2) = 12"
  by (rule rhe_eval) simp

text \<open>
  C4 as stated fails: the subtotal is not the fixed charge but the fixed charge rounded to
  two decimals. With the fixed charge 0.125, zero units on the default slabs give the
  subtotal 0.12 (the tie goes to the even digit).
\<close>

theorem zero_units_subtotal_counterexample:
  "is_double (1 / 8)
   \<and> map_sum id bill_subtotal
        (calculate_bill (Fin 0) default_slabs (Fin (1 / 8)) (Fin 5) (Fin 5))
      = Inr (fl (12 / 100))
   \<and> fl (12 / 100) \<noteq> Fin (1 / 8)"
  by (simp add: is_double_def bill_eval ex250_fl0 fl_exact_1_8 fl_12_cents rhe_25_2)

text \<open>
  C4 as the code behaves. For zero units, any fixed charge, any GST percentage, a finite
  duty percentage and a slab list that is empty or starts with a slab of finite rate whose
  limit can be printed, \<^verbatim>\<open>calculate_bill\<close> returns a bill in which every recorded
  allocation is the int 0 with charge 0, the energy charge and the duty are 0, the subtotal
  is the fixed charge rounded to two decimals (the bill's \<open>fixed_charge\<close> field), the GST is
  the rounded \<^verbatim>\<open>gst_pct/100.0\<close> share of that subtotal and the total the rounded sum of the
  two. For the fixed charge 50 and 5% GST these are 50.00, 2.50 and 52.50, which is
  \<open>50 \<times> 1.05\<close>.
\<close>

theorem zero_units_bill:
  assumes "is_float fixed_charge" and "is_double dp"
      and "\<forall>s\<in>set (take 1 slabs).
             finite_float (rate s) \<and> \<bar>upto s\<bar> < 10 ^ int_max_str_digits"
  shows "\<exists>b. calculate_bill (Fin 0) slabs fixed_charge (Fin dp) gst_pct = Inr b
           \<and> (\<forall>d\<in>set (bill_slab_details b). det_units d = PyInt 0 \<and> det_charge d = Fin 0)
           \<and> bill_energy_charge b = Fin 0 \<and> bill_duty b = Fin 0
           \<and> bill_subtotal b = round2 fixed_charge
           \<and> bill_subtotal b = bill_fixed_charge b
           \<and> bill_gst b = round2 (fmul (fdiv_100 gst_pct) (bill_subtotal b))
           \<and> bill_total_bill b = round2 (fadd (bill_subtotal b) (bill_gst b))
           \<and> (fixed_charge = Fin 50 \<and> gst_pct = Fin 5 \<longrightarrow>
                bill_subtotal b = Fin 50 \<and> bill_gst b = Fin (5 / 2)
                \<and> bill_total_bill b = Fin (105 / 2))"
proof -
  obtain ds where l: "slab_loop slabs (Fin 0) (Fin 0) [] 0 = Inr (Fin 0, ds)"
      and ds: "\<forall>d\<in>set ds. det_units d = PyInt 0 \<and> det_charge d = Fin 0"
    using zero_loop [OF assms(3)] by blast
  obtain p where p: "fl (dp / 100) = Fin p" using fdiv_100_finite [OF assms(2)] by blast
  have f: "fadd (Fin 0) fixed_charge = fixed_charge" by (rule fadd_0_left [OF assms(1)])
  have def: "round2 (fadd (round2 (Fin 50)) (round2 (fmul (fdiv_100 (Fin 5)) (round2 (Fin 50)))))
               = Fin (105 / 2)
             \<and> round2 (fmul (fdiv_100 (Fin 5)) (round2 (Fin 50))) = Fin (5 / 2)
             \<and> round2 (Fin 50) = Fin 50"
    by (simp add: fl_numeral ex250_fl0 fl_gst_on_50 fl_exact_5_2 fl_exact_105_2)
  show ?thesis
    using l ds p f def by (auto simp add: calculate_bill_def Let_def)
qed

theorem zero_units_bill_witness:
  "is_float (Fin 50) \<and> is_double 5
   \<and> (\<exists>b. calculate_bill (Fin 0) default_slabs (Fin 50) (Fin 5) (Fin 5) = Inr b
          \<and> bill_energy_charge b = Fin 0 \<and> bill_duty b = Fin 0
          \<and> bill_subtotal b = Fin 50 \<and> bill_gst b = Fin (5 / 2)
          \<and> bill_total_bill b = Fin (105 / 2))"
proof -
  have a: "is_float (Fin 50)" "is_double 5" by (simp_all add: is_double_def fl_numeral)
  have k: "\<forall>s\<in>set (take 1 default_slabs).
             finite_float (rate s) \<and> \<bar>upto s\<bar> < 10 ^ int_max_str_digits"
    using small_printable [of 100] by (simp add: default_slabs_def)
  show ?thesis
    using zero_units_bill [OF a k, of "Fin 5"] a by auto
qed

section \<open>Allocations stay within the capacities\<close>

lemma slab_visits_records:
  assumes "slab_loop slabs r e ds p = Inr (e', ds')"
  shows "map det_units ds' =
           map det_units ds @ map (\<lambda>(s, p, r). units_in_slab s r p) (slab_visits slabs r p)"
  using assms
proof (induction slabs arbitrary: r e ds p)
  case Nil
  then show ?case by simp
next
  case (Cons s slabs)
  obtain u where u: "to_float (units_in_slab s r p) = Inr u"
    using Cons.prems by (auto simp add: Let_def split: sum.splits)
  obtain l where l: "slab_range s p = Inr l"
    using Cons.prems u by (auto simp add: Let_def split: sum.splits)
  show ?case
  proof (cases "le_0 (fsub r u)")
    case True
    then show ?thesis using Cons.prems u l by (auto simp add: Let_def)
  next
    case False
    then have "slab_loop slabs (fsub r u) (fadd e (fmul u (rate s)))
                 (ds @ [\<lparr>det_slab_range = l, det_units = units_in_slab s r p,
                          det_rate = rate s, det_charge = round2 (fmul u (rate s))\<rparr>])
                 (upto s) = Inr (e', ds')"
      using Cons.prems u l by (simp add: Let_def)
    from Cons.IH [OF this] show ?thesis using False u by (simp add: Let_def)
  qed
qed

lemma units_in_slab_within:
  assumes "is_float r" "fle (Fin 0) r" "upto s = 0 \<or> p < upto s"
  shows "num_ge_0 (units_in_slab s r p)
       \<and> (upto s \<noteq> 0 \<longrightarrow> num_le_int (units_in_slab s r p) (upto s - p))
       \<and> (upto s = 0 \<longrightarrow> num_le_float (units_in_slab s r p) r)"
proof (cases r)
  case (Fin x)
  then have x: "0 \<le> x" using assms(2) by simp
  show ?thesis
  proof (cases rule: units_in_slab_cases [of s x p])
    case zero
    then show ?thesis using Fin x assms(3) by auto
  next
    case rest
    then show ?thesis using Fin by auto
  next
    case cap
    then show ?thesis using Fin by auto
  qed
next
  case PInf
  then show ?thesis using assms(3)
    by (auto simp add: units_in_slab_def py_min_def py_max_0_def Let_def)
next
  case NInf
  then show ?thesis using assms(2) by simp
next
  case NaN
  then show ?thesis using assms(2) by simp
qed

lemma remaining_stays_nonneg:
  assumes "is_float r" "fle (Fin 0) r" "upto s \<noteq> 0"
      and "to_float (units_in_slab s r p) = Inr u"
  shows "is_float (fsub r u) \<and> fle (Fin 0) (fsub r u)"
proof (cases r)
  case (Fin x)
  then have x: "is_double x" "0 \<le> x" using assms(1,2) by simp_all
  obtain u' r' where st: "to_float (units_in_slab s (Fin x) p) = Inr (Fin u')"
      "fsub (Fin x) (Fin u') = Fin r'" "is_double r'"
      "0 \<le> x \<longrightarrow> 0 \<le> r'"
    using slab_step [OF x(1), of s p] by blast
  then show ?thesis using assms(4) Fin x by simp
next
  case PInf
  define c where "c = (if 0 < upto s - p then upto s - p else 0)"
  have "units_in_slab s PInf p = PyInt c"
    using assms(3) by (simp add: c_def units_in_slab_def py_min_def py_max_0_def Let_def)
  then have tf: "to_float (PyInt c) = Inr u" using assms(4) PInf by simp
  have "\<exists>y. u = Fin y" using tf by (cases "fl (of_int c)") auto
  then obtain y where "u = Fin y" by blast
  then show ?thesis using PInf by (simp add: fsub_def)
next
  case NInf
  then show ?thesis using assms(2) by simp
next
  case NaN
  then show ?thesis using assms(2) by simp
qed

lemma slab_visits_within:
  assumes "is_float r" "fle (Fin 0) r" "well_ordered p slabs"
  shows "\<forall>(s, p, r) \<in> set (slab_visits slabs r p).
           num_ge_0 (units_in_slab s r p)
         \<and> (upto s \<noteq> 0 \<longrightarrow> num_le_int (units_in_slab s r p) (upto s - p))
         \<and> (upto s = 0 \<longrightarrow> num_le_float (units_in_slab s r p) r)"
  using assms
proof (induction slabs arbitrary: r p)
  case Nil
  then show ?case by simp
next
  case (Cons s slabs)
  have o: "upto s = 0 \<or> p < upto s" using Cons.prems(3) by (auto split: if_splits)
  have here: "num_ge_0 (units_in_slab s r p)
       \<and> (upto s \<noteq> 0 \<longrightarrow> num_le_int (units_in_slab s r p) (upto s - p))
       \<and> (upto s = 0 \<longrightarrow> num_le_float (units_in_slab s r p) r)"
    by (rule units_in_slab_within [OF Cons.prems(1,2) o])
  show ?case
  proof (cases "to_float (units_in_slab s r p)")
    case (Inl err)
    then show ?thesis using here by simp
  next
    case (Inr u)
    show ?thesis
    proof (cases "upto s = 0")
      case True
      then have "slabs = []" using Cons.prems(3) by simp
      then show ?thesis using here Inr by (simp add: Let_def)
    next
      case False
      then have w: "well_ordered (upto s) slabs" using Cons.prems(3) by simp
      have n: "is_float (fsub r u)" "fle (Fin 0) (fsub r u)"
        using remaining_stays_nonneg [OF Cons.prems(1,2) False Inr] by simp_all
      show ?thesis using here Inr Cons.IH [OF n w] by (simp add: Let_def)
    qed
  qed
qed

text \<open>
  C8. For every non-negative float consumption (infinity included) and every well-ordered
  slab list (the limits positive and strictly increasing, an unbounded slab only in the last
  place), whenever \<^verbatim>\<open>calculate_bill\<close> returns a bill, its records carry, in order, the
  quantities taken by the slabs that the loop visited, and each of these quantities lies
  between 0 and the slab's capacity: \<open>upto - prev_limit\<close> for a bounded slab, the units
  remaining at that point for the unbounded slab.
\<close>

theorem allocation_within_capacity:
  assumes "calculate_bill units slabs fixed_charge duty_pct gst_pct = Inr b"
      and "is_float units" "fle (Fin 0) units" "well_ordered 0 slabs"
  shows "map det_units (bill_slab_details b) =
           map (\<lambda>(s, p, r). units_in_slab s r p) (slab_visits slabs units 0)
       \<and> (\<forall>(s, p, r) \<in> set (slab_visits slabs units 0).
             num_ge_0 (units_in_slab s r p)
           \<and> (upto s \<noteq> 0 \<longrightarrow> num_le_int (units_in_slab s r p) (upto s - p))
           \<and> (upto s = 0 \<longrightarrow> num_le_float (units_in_slab s r p) r))"
proof -
  obtain e ds where l: "slab_loop slabs units (Fin 0) [] 0 = Inr (e, ds)"
      and b: "bill_slab_details b = ds"
    using assms(1) by (auto simp add: calculate_bill_def Let_def split: sum.splits)
  show ?thesis
    using slab_visits_records [OF l] b slab_visits_within [OF assms(2,3,4)] by simp
qed

theorem allocation_within_capacity_witness:
  "is_float (Fin 250) \<and> fle (Fin 0) (Fin 250) \<and> well_ordered 0 default_slabs
   \<and> (\<exists>b. calculate_bill (Fin 250) default_slabs (Fin 50) (Fin 5) (Fin 5) = Inr b
          \<and> map det_units (bill_slab_details b) = [PyInt 100, PyInt 100, PyFloat (Fin 50)]
          \<and> map det_units (bill_slab_details b) =
              map (\<lambda>(s, p, r). units_in_slab s r p) (slab_visits default_slabs (Fin 250) 0))"
proof -
  have h: "is_float (Fin 250)" "fle (Fin 0) (Fin 250)" "well_ordered 0 default_slabs"
    by (simp_all add: is_double_def fl_numeral default_slabs_def)
  show ?thesis
    using allocation_within_capacity [OF bill_250 h] h bill_250 by simp
qed

section \<open>Consumption beyond a bounded last slab\<close>

lemma well_ordered_last:
  assumes "well_ordered p slabs" "slabs \<noteq> []" "upto (last slabs) \<noteq> 0"
  shows "p < upto (last slabs)"
  using assms
proof (induction slabs arbitrary: p)
  case Nil
  then show ?case by simp
next
  case (Cons s slabs)
  show ?case
  proof (cases "slabs = []")
    case True
    then show ?thesis using Cons.prems by (auto split: if_splits)
  next
    case False
    then have l: "last (s # slabs) = last slabs" by simp
    have s: "upto s \<noteq> 0" using Cons.prems(1) False by (auto split: if_splits)
    then have "p < upto s" "well_ordered (upto s) slabs" using Cons.prems(1) by simp_all
    moreover have "upto s < upto (last slabs)"
      using Cons.IH [OF \<open>well_ordered (upto s) slabs\<close> False] Cons.prems(3) l by simp
    ultimately show ?thesis using l by simp
  qed
qed

lemma full_step:
  assumes "is_double r" "r \<le> 2 ^ 53" "upto s \<noteq> 0" "p < upto s" "of_int (upto s - p) < r"
  shows "units_in_slab s (Fin r) p = PyInt (upto s - p)"
    and "to_float (PyInt (upto s - p)) = Inr (Fin (of_int (upto s - p)))"
    and "fsub (Fin r) (Fin (of_int (upto s - p))) = Fin (r - of_int (upto s - p))"
    and "is_double (r - of_int (upto s - p))"
proof -
  define c where "c = upto s - p"
  have c: "0 < c" "of_int c < r" using assms(4,5) by (simp_all add: c_def)
  show "units_in_slab s (Fin r) p = PyInt (upto s - p)"
    using assms(3,4,5) by (simp add: units_in_slab_Fin)
  have "of_int c < (of_int (2 ^ 53) :: rat)" using c(2) assms(2) by simp
  then have "c < 2 ^ 53" by (simp only: of_int_less_iff)
  then have "fl (of_int c) = Fin (of_int c)" using c(1) by (intro fl_of_int) auto
  then show "to_float (PyInt (upto s - p)) = Inr (Fin (of_int (upto s - p)))"
    by (simp add: c_def)
  have f: "fl (r - of_int c) = Fin (r - of_int c)"
    using assms(1,2) c by (intro fl_sub_exact) auto
  then show "fsub (Fin r) (Fin (of_int (upto s - p))) = Fin (r - of_int (upto s - p))"
    by (simp add: fsub_Fin c_def)
  show "is_double (r - of_int (upto s - p))"
    using fl_is_double [OF f] by (simp add: c_def)
qed

lemma full_loop_same:
  assumes "is_double r1" "r1 \<le> 2 ^ 53" "of_int (upto (last slabs) - p) < r1"
      and "is_double r2" "r2 \<le> 2 ^ 53" "of_int (upto (last slabs) - p) < r2"
      and "well_ordered p slabs" "slabs \<noteq> []" "upto (last slabs) \<noteq> 0"
  shows "slab_loop slabs (Fin r1) e ds p = slab_loop slabs (Fin r2) e ds p"
  using assms
proof (induction slabs arbitrary: r1 r2 e ds p)
  case Nil
  then show ?case by simp
next
  case (Cons s slabs)
  define L where "L = upto (last (s # slabs))"
  have s0: "upto s \<noteq> 0"
    using Cons.prems(7,9) by (cases "slabs = []") (auto split: if_splits)
  then have ps: "p < upto s" and w: "well_ordered (upto s) slabs"
    using Cons.prems(7) by simp_all
  have sL: "upto s \<le> L"
  proof (cases "slabs = []")
    case True
    then show ?thesis by (simp add: L_def)
  next
    case False
    then show ?thesis
      using well_ordered_last [OF w False] Cons.prems(9) by (simp add: L_def)
  qed
  have lt: "of_int (upto s - p) < r1" "of_int (upto s - p) < r2"
  proof -
    have "(of_int (upto s - p) :: rat) \<le> of_int (L - p)" using sL by simp
    then show "of_int (upto s - p) < r1" "of_int (upto s - p) < r2"
      using Cons.prems(3,6) unfolding L_def [symmetric] by linarith+
  qed
  note f1 = full_step [OF Cons.prems(1,2) s0 ps lt(1)]
  note f2 = full_step [OF Cons.prems(4,5) s0 ps lt(2)]
  define c where "c = upto s - p"
  have cpos: "(0::rat) < of_int c" using ps by (simp add: c_def)
  show ?case
  proof (cases "slabs = []")
    case True
    have "\<not> r1 - of_int c \<le> 0" "\<not> r2 - of_int c \<le> 0" using lt by (simp_all add: c_def)
    then show ?thesis
      using f1 f2 True unfolding c_def [symmetric]
      by (simp add: Let_def split: sum.splits)
  next
    case False
    then have l: "last (s # slabs) = last slabs" by simp
    have n: "upto (last slabs) \<noteq> 0" using Cons.prems(9) l by simp
    have big: "upto s < upto (last slabs)" by (rule well_ordered_last [OF w False n])
    have e: "(of_int (upto (last slabs) - upto s) :: rat)
               = of_int (upto (last slabs) - p) - of_int c"
      by (simp add: c_def)
    have r1: "of_int (upto (last slabs) - upto s) < r1 - of_int c"
      using Cons.prems(3) unfolding l e by linarith
    have r2: "of_int (upto (last slabs) - upto s) < r2 - of_int c"
      using Cons.prems(6) unfolding l e by linarith
    have pos: "(0::rat) < of_int (upto (last slabs) - upto s)" using big by simp
    have n1: "\<not> r1 - of_int c \<le> 0" "\<not> r2 - of_int c \<le> 0" using r1 r2 pos by linarith+
    have le: "r1 - of_int c \<le> 2 ^ 53" "r2 - of_int c \<le> 2 ^ 53"
      using Cons.prems(2,5) cpos by linarith+
    have d: "is_double (r1 - of_int c)" "is_double (r2 - of_int c)"
      using f1(4) f2(4) by (simp_all add: c_def)
    have IH: "slab_loop slabs (Fin (r1 - of_int c)) e' ds' (upto s)
                = slab_loop slabs (Fin (r2 - of_int c)) e' ds' (upto s)" for e' ds'
      by (rule Cons.IH [OF d(1) le(1) r1 d(2) le(2) r2 w False n])
    show ?thesis
      using f1 f2 n1 IH unfolding c_def [symmetric]
      by (simp add: Let_def split: sum.splits)
  qed
qed

lemma full_loop_alloc:
  assumes "is_double r" "r \<le> 2 ^ 53" "of_int (upto (last slabs) - p) < r"
      and "well_ordered p slabs" "slabs \<noteq> []" "upto (last slabs) \<noteq> 0"
      and "slab_loop slabs (Fin r) e ds p = Inr (e', ds')"
  shows "map det_units ds' = map det_units ds @ map PyInt (capacities p slabs)"
  using assms
proof (induction slabs arbitrary: r e ds p)
  case Nil
  then show ?case by simp
next
  case (Cons s slabs)
  define L where "L = upto (last (s # slabs))"
  have s0: "upto s \<noteq> 0"
    using Cons.prems(4,6) by (cases "slabs = []") (auto split: if_splits)
  then have ps: "p < upto s" and w: "well_ordered (upto s) slabs"
    using Cons.prems(4) by simp_all
  have sL: "upto s \<le> L"
  proof (cases "slabs = []")
    case True
    then show ?thesis by (simp add: L_def)
  next
    case False
    then show ?thesis
      using well_ordered_last [OF w False] Cons.prems(6) by (simp add: L_def)
  qed
  have lt: "of_int (upto s - p) < r"
  proof -
    have "(of_int (upto s - p) :: rat) \<le> of_int (L - p)" using sL by simp
    then show ?thesis using Cons.prems(3) unfolding L_def [symmetric] by linarith
  qed
  note f = full_step [OF Cons.prems(1,2) s0 ps lt]
  define c where "c = upto s - p"
  have cpos: "(0::rat) < of_int c" using ps by (simp add: c_def)
  obtain l where l: "slab_range s p = Inr l"
    using Cons.prems(7) f by (auto simp add: Let_def split: sum.splits)
  define ds1 where "ds1 = ds @ [\<lparr>det_slab_range = l, det_units = PyInt c,
      det_rate = rate s, det_charge = round2 (fmul (Fin (of_int c)) (rate s))\<rparr>]"
  have m1: "map det_units ds1 = map det_units ds @ [PyInt c]" by (simp add: ds1_def)
  show ?case
  proof (cases "slabs = []")
    case True
    have "\<not> r - of_int c \<le> 0" using lt by (simp add: c_def)
    then have "ds' = ds1"
      using Cons.prems(7) f l True unfolding c_def [symmetric]
      by (simp add: Let_def ds1_def)
    then show ?thesis using m1 True by (simp add: c_def)
  next
    case False
    then have la: "last (s # slabs) = last slabs" by simp
    have n: "upto (last slabs) \<noteq> 0" using Cons.prems(6) la by simp
    have big: "upto s < upto (last slabs)" by (rule well_ordered_last [OF w False n])
    have e: "(of_int (upto (last slabs) - upto s) :: rat)
               = of_int (upto (last slabs) - p) - of_int c"
      by (simp add: c_def)
    have r1: "of_int (upto (last slabs) - upto s) < r - of_int c"
      using Cons.prems(3) unfolding la e by linarith
    have pos: "(0::rat) < of_int (upto (last slabs) - upto s)" using big by simp
    have n1: "\<not> r - of_int c \<le> 0" using r1 pos by linarith
    have le: "r - of_int c \<le> 2 ^ 53" using Cons.prems(2) cpos by linarith
    have d: "is_double (r - of_int c)" using f(4) by (simp add: c_def)
    have run: "slab_loop slabs (Fin (r - of_int c))
                 (fadd e (fmul (Fin (of_int c)) (rate s))) ds1 (upto s) = Inr (e', ds')"
      using Cons.prems(7) f l n1 unfolding c_def [symmetric]
      by (simp add: Let_def ds1_def)
    have "map det_units ds' = map det_units ds1 @ map PyInt (capacities (upto s) slabs)"
      by (rule Cons.IH [OF d le r1 w False n run])
    then show ?thesis using m1 by (simp add: c_def)
  qed
qed

lemma sum_units_PyInt: "sum_units (map PyInt cs) = Some (of_int (sum_list cs))"
  by (induction cs) simp_all

lemma sum_capacities:
  "slabs \<noteq> [] \<Longrightarrow> sum_list (capacities p slabs) = upto (last slabs) - p"
  by (induction slabs arbitrary: p) auto

lemma fl_2_54_6: "fl 18014398509481990 = Fin 18014398509481992"
  using fl_eval [of "18014398509481990" "54" 4503599627370498] by simp

lemma fl_2_54_8: "fl 18014398509481992 = Fin 18014398509481992"
  using fl_eval [of "18014398509481992" "54" 4503599627370498] by simp

lemma fl_2_54_12: "fl 18014398509481996 = Fin 18014398509481996"
  using fl_eval [of "18014398509481996" "54" 4503599627370499] by simp

lemma fl_2_54_16: "fl 18014398509482000 = Fin 18014398509482000"
  using fl_eval [of "18014398509482000" "54" 4503599627370500] by simp

text \<open>
  C3 as stated fails for large consumptions. On the slabs of limits \<open>2^54 + 6\<close> (rate 1) and
  \<open>2^54 + 7\<close> (rate 8) the total capacity is \<open>2^54 + 7\<close>. The floats \<open>2^54 + 8\<close> and \<open>2^54 + 12\<close>
  both exceed it, yet their energy charges differ: the first slab's quantity is converted
  to the float \<open>2^54 + 8\<close>, which uses up the first consumption altogether, so that the
  second slab is charged only for the second consumption. Units beyond the last limit do
  contribute to the energy charge.
\<close>

theorem excess_units_counterexample:
  "is_double 18014398509481992 \<and> is_double 18014398509481996
   \<and> map_sum id bill_energy_charge
       (calculate_bill (Fin 18014398509481992)
          [\<lparr>upto = 18014398509481990, rate = Fin 1\<rparr>, \<lparr>upto = 18014398509481991, rate = Fin 8\<rparr>]
          (Fin 50) (Fin 5) (Fin 5))
     = Inr (Fin 18014398509481992)
   \<and> map_sum id bill_energy_charge
       (calculate_bill (Fin 18014398509481996)
          [\<lparr>upto = 18014398509481990, rate = Fin 1\<rparr>, \<lparr>upto = 18014398509481991, rate = Fin 8\<rparr>]
          (Fin 50) (Fin 5) (Fin 5))
     = Inr (Fin 18014398509482000)"
  by (simp add: is_double_def bill_eval fl_2_54_6 fl_2_54_8 fl_2_54_12 fl_2_54_16)

text \<open>
  C3 as the code behaves, for float consumptions up to \<open>2^53\<close>. Let the slab list be
  non-empty and well ordered with a bounded last slab, so that its total capacity is the
  last limit, and let the limits be printable. For every consumption above that capacity
  \<^verbatim>\<open>calculate_bill\<close> returns a bill in which every slab is allocated exactly its capacity:
  the allocations sum to the total capacity, and the excess is allocated nowhere. The slab
  records and the energy charge are the same for any two such consumptions: the units beyond
  the last limit contribute nothing.
\<close>

theorem excess_dropped:
  assumes "is_double u1" "u1 \<le> 2 ^ 53" "of_int (upto (last slabs)) < u1"
      and "is_double u2" "u2 \<le> 2 ^ 53" "of_int (upto (last slabs)) < u2"
      and "well_ordered 0 slabs" "slabs \<noteq> []" "upto (last slabs) \<noteq> 0"
      and "\<forall>s\<in>set slabs. \<bar>upto s\<bar> + 1 < 10 ^ int_max_str_digits"
  shows "\<exists>b1 b2.
           calculate_bill (Fin u1) slabs fixed_charge duty_pct gst_pct = Inr b1
         \<and> calculate_bill (Fin u2) slabs fixed_charge duty_pct gst_pct = Inr b2
         \<and> map det_units (bill_slab_details b1) = map PyInt (capacities 0 slabs)
         \<and> allocated_units b1 = Some (of_int (upto (last slabs)))
         \<and> bill_slab_details b2 = bill_slab_details b1
         \<and> bill_energy_charge b2 = bill_energy_charge b1"
proof -
  have p0: "\<bar>0::int\<bar> + 1 < 10 ^ int_max_str_digits" by (rule small_printable) simp
  obtain e ds where l1: "slab_loop slabs (Fin u1) (Fin 0) [] 0 = Inr (e, ds)"
    using slab_loop_total [OF assms(1) p0 assms(10)] by blast
  have same: "slab_loop slabs (Fin u1) (Fin 0) [] 0 = slab_loop slabs (Fin u2) (Fin 0) [] 0"
    using full_loop_same [of u1 slabs 0 u2 "Fin 0" "[]"] assms(1-9) by simp
  then have l2: "slab_loop slabs (Fin u2) (Fin 0) [] 0 = Inr (e, ds)" using l1 by simp
  have "map det_units ds = map det_units [] @ map PyInt (capacities 0 slabs)"
    using full_loop_alloc [of u1 slabs 0 "Fin 0" "[]" e ds] assms(1-3,7-9) l1 by simp
  then have a: "map det_units ds = map PyInt (capacities 0 slabs)" by simp
  have s: "sum_units (map det_units ds) = Some (of_int (upto (last slabs)))"
    using sum_capacities [OF assms(8), of 0] by (simp add: a sum_units_PyInt)
  show ?thesis
    using l1 l2 a s by (simp add: calculate_bill_def Let_def allocated_units_def)
qed

theorem excess_dropped_witness:
  "is_double 350 \<and> (350::rat) \<le> 2 ^ 53 \<and> is_double 1000 \<and> (1000::rat) \<le> 2 ^ 53
   \<and> (\<exists>b1 b2.
         calculate_bill (Fin 350)
           [\<lparr>upto = 100, rate = Fin 3\<rparr>, \<lparr>upto = 200, rate = Fin (9 / 2)\<rparr>,
            \<lparr>upto = 300, rate = Fin 6\<rparr>] (Fin 50) (Fin 5) (Fin 5) = Inr b1
       \<and> calculate_bill (Fin 1000)
           [\<lparr>upto = 100, rate = Fin 3\<rparr>, \<lparr>upto = 200, rate = Fin (9 / 2)\<rparr>,
            \<lparr>upto = 300, rate = Fin 6\<rparr>] (Fin 50) (Fin 5) (Fin 5) = Inr b2
       \<and> map det_units (bill_slab_details b1) = [PyInt 100, PyInt 100, PyInt 100]
       \<and> allocated_units b1 = Some 300
       \<and> bill_slab_details b2 = bill_slab_details b1
       \<and> bill_energy_charge b2 = bill_energy_charge b1)"
proof -
  define S where "S = [\<lparr>upto = 100, rate = Fin 3\<rparr>, \<lparr>upto = 200, rate = Fin (9 / 2)\<rparr>,
            \<lparr>upto = 300, rate = Fin 6\<rparr>]"
  have d: "is_double 350" "is_double 1000" by (simp_all add: is_double_def fl_numeral)
  have b: "(350::rat) \<le> 2 ^ 53" "(1000::rat) \<le> 2 ^ 53" by simp_all
  have c: "of_int (upto (last S)) < (350::rat)" "of_int (upto (last S)) < (1000::rat)"
    by (simp_all add: S_def)
  have w: "well_ordered 0 S" "S \<noteq> []" "upto (last S) \<noteq> 0" by (simp_all add: S_def)
  have k: "\<forall>s\<in>set S. \<bar>upto s\<bar> + 1 < 10 ^ int_max_str_digits"
    using small_printable [of 100] small_printable [of 200] small_printable [of 300]
    by (simp add: S_def)
  show ?thesis
    using excess_dropped [OF d(1) b(1) c(1) d(2) b(2) c(2) w k, of "Fin 50" "Fin 5" "Fin 5"]
      d b
    by (simp add: S_def)
qed

section \<open>Monotonicity of the total\<close>

lemma nonneg_le_iff:
  "nonneg_le x y \<longleftrightarrow> (\<exists>a b. x = Fin a \<and> y = Fin b \<and> 0 \<le> a \<and> a \<le> b)"
  by (cases x; cases y) auto

lemma finite_float_iff: "finite_float x \<longleftrightarrow> (\<exists>a. x = Fin a)"
  by (cases x) auto

lemma finite_round2: "finite_float (round2 x) \<Longrightarrow> finite_float x"
  by (cases x) simp_all

lemma finite_fadd: "finite_float (fadd x y) \<Longrightarrow> finite_float x \<and> finite_float y"
  by (cases x; cases y) simp_all

lemma finite_fmul: "finite_float (fmul x y) \<Longrightarrow> finite_float x \<and> finite_float y"
  by (cases x; cases y) (simp_all split: if_splits)

lemma round2_mono:
  assumes "nonneg_le x1 x2" "finite_float (round2 x2)"
  shows "nonneg_le (round2 x1) (round2 x2)"
proof -
  obtain a1 a2 where a: "x1 = Fin a1" "x2 = Fin a2" "0 \<le> a1" "a1 \<le> a2"
    using assms(1) unfolding nonneg_le_iff by blast
  obtain c2 where c2: "fl (of_int (rhe (100 * a2)) / 100) = Fin c2"
    using assms(2) a(2) unfolding finite_float_iff by auto
  have "rhe (100 * a1) \<le> rhe (100 * a2)" using a(4) by (intro rhe_mono) simp
  then have le: "(of_int (rhe (100 * a1)) :: rat) / 100 \<le> of_int (rhe (100 * a2)) / 100"
    by (simp add: divide_right_mono)
  have "0 \<le> rhe (100 * a1)" using a(3) by (intro rhe_nonneg) simp
  then have nn: "(0::rat) \<le> of_int (rhe (100 * a1)) / 100" by simp
  obtain c1 where "fl (of_int (rhe (100 * a1)) / 100) = Fin c1" "0 \<le> c1" "c1 \<le> c2"
    using fl_mono_fin [OF nn le c2] by blast
  then show ?thesis using a c2 by simp
qed

lemma fadd_mono:
  assumes "nonneg_le x1 x2" "nonneg_le y1 y2" "finite_float (fadd x2 y2)"
  shows "nonneg_le (fadd x1 y1) (fadd x2 y2)"
proof -
  obtain a1 a2 where a: "x1 = Fin a1" "x2 = Fin a2" "0 \<le> a1" "a1 \<le> a2"
    using assms(1) unfolding nonneg_le_iff by blast
  obtain b1 b2 where b: "y1 = Fin b1" "y2 = Fin b2" "0 \<le> b1" "b1 \<le> b2"
    using assms(2) unfolding nonneg_le_iff by blast
  obtain c2 where c2: "fl (a2 + b2) = Fin c2"
    using assms(3) a(2) b(2) unfolding finite_float_iff by auto
  have "0 \<le> a1 + b1" "a1 + b1 \<le> a2 + b2" using a b by simp_all
  then obtain c1 where "fl (a1 + b1) = Fin c1" "0 \<le> c1" "c1 \<le> c2"
    using fl_mono_fin [of "a1 + b1" "a2 + b2" c2] c2 by blast
  then show ?thesis using a b c2 by simp
qed

lemma fmul_mono:
  assumes "nonneg_le x1 x2" "nonneg_le y1 y2" "finite_float (fmul x2 y2)"
  shows "nonneg_le (fmul x1 y1) (fmul x2 y2)"
proof -
  obtain a1 a2 where a: "x1 = Fin a1" "x2 = Fin a2" "0 \<le> a1" "a1 \<le> a2"
    using assms(1) unfolding nonneg_le_iff by blast
  obtain b1 b2 where b: "y1 = Fin b1" "y2 = Fin b2" "0 \<le> b1" "b1 \<le> b2"
    using assms(2) unfolding nonneg_le_iff by blast
  obtain c2 where c2: "fl (a2 * b2) = Fin c2"
    using assms(3) a(2) b(2) unfolding finite_float_iff by auto
  have "0 \<le> a1 * b1" using a(3) b(3) by simp
  moreover have "a1 * b1 \<le> a2 * b2" using a b by (intro mult_mono) auto
  ultimately obtain c1 where "fl (a1 * b1) = Fin c1" "0 \<le> c1" "c1 \<le> c2"
    using fl_mono_fin [of "a1 * b1" "a2 * b2" c2] c2 by blast
  then show ?thesis using a b c2 by simp
qed

lemma fdiv_100_nonneg:
  assumes "nonneg_finite x" "finite_float (fdiv_100 x)"
  shows "nonneg_le (fdiv_100 x) (fdiv_100 x)"
proof -
  obtain a where a: "x = Fin a" "0 \<le> a" using assms(1) by (cases x) simp_all
  obtain p where p: "fl (a / 100) = Fin p" using assms(2) a(1) unfolding finite_float_iff by auto
  have "0 \<le> a / 100" using a(2) by simp
  then have "0 \<le> p" using fl_nonneg_cases [of "a / 100"] p by auto
  then show ?thesis using a p by simp
qed

lemma step_parts:
  assumes "is_double r" "0 \<le> r"
  obtains u r' where "to_float (units_in_slab s (Fin r) p) = Inr (Fin u)"
      "fsub (Fin r) (Fin u) = Fin r'" "is_double r'" "0 \<le> u" "u \<le> r" "0 \<le> r'" "r' \<le> r"
  using slab_step [OF assms(1), of s p] assms(2) by blast

lemma step_mono:
  assumes "is_double r1" "is_double r2" "0 \<le> r1" "r1 \<le> r2"
  shows "\<exists>u1 r1' u2 r2'.
           to_float (units_in_slab s (Fin r1) p) = Inr (Fin u1)
         \<and> fsub (Fin r1) (Fin u1) = Fin r1' \<and> is_double r1'
         \<and> to_float (units_in_slab s (Fin r2) p) = Inr (Fin u2)
         \<and> fsub (Fin r2) (Fin u2) = Fin r2' \<and> is_double r2'
         \<and> 0 \<le> u1 \<and> u1 \<le> u2 \<and> 0 \<le> r1' \<and> r1' \<le> r2'"
proof -
  have r2: "0 \<le> r2" using assms(3,4) by simp
  obtain u1 r1' where s1: "to_float (units_in_slab s (Fin r1) p) = Inr (Fin u1)"
      "fsub (Fin r1) (Fin u1) = Fin r1'" "is_double r1'" "0 \<le> u1" "u1 \<le> r1"
      "0 \<le> r1'" "r1' \<le> r1"
    by (rule step_parts [OF assms(1,3), of s p])
  obtain u2 r2' where s2: "to_float (units_in_slab s (Fin r2) p) = Inr (Fin u2)"
      "fsub (Fin r2) (Fin u2) = Fin r2'" "is_double r2'" "0 \<le> u2" "u2 \<le> r2"
      "0 \<le> r2'" "r2' \<le> r2"
    by (rule step_parts [OF assms(2) r2, of s p])
  have f1: "fl r1 = Fin r1" and f2: "fl r2 = Fin r2"
    using assms(1,2) by (simp_all add: is_double_def)
  define c where "c = upto s - p"
  have all1: "u1 = r1 \<and> r1' = 0" if "upto s = 0 \<or> r1 \<le> of_int c"
  proof -
    have "units_in_slab s (Fin r1) p = (if 0 < r1 then PyFloat (Fin r1) else PyInt 0)"
      using that by (auto simp add: units_in_slab_Fin c_def)
    then have "u1 = r1" using s1(1) assms(3) by (auto split: if_splits)
    then show ?thesis using s1(2) by (simp add: fsub_Fin)
  qed
  have all2: "u2 = r2 \<and> r2' = 0" if "upto s = 0 \<or> r2 \<le> of_int c"
  proof -
    have "units_in_slab s (Fin r2) p = (if 0 < r2 then PyFloat (Fin r2) else PyInt 0)"
      using that by (auto simp add: units_in_slab_Fin c_def)
    then have "u2 = r2" using s2(1) r2 by (auto split: if_splits)
    then show ?thesis using s2(2) by (simp add: fsub_Fin)
  qed
  have cap1: "to_float (PyInt (if 0 < c then c else 0)) = Inr (Fin u1)"
    if "upto s \<noteq> 0" "of_int c < r1"
  proof -
    have "units_in_slab s (Fin r1) p = PyInt (if 0 < c then c else 0)"
      using that by (simp add: units_in_slab_Fin c_def)
    then show ?thesis using s1(1) by (simp only:)
  qed
  have cap2: "to_float (PyInt (if 0 < c then c else 0)) = Inr (Fin u2)"
    if "upto s \<noteq> 0" "of_int c < r2"
  proof -
    have "units_in_slab s (Fin r2) p = PyInt (if 0 < c then c else 0)"
      using that by (simp add: units_in_slab_Fin c_def)
    then show ?thesis using s2(1) by (simp only:)
  qed
  have "u1 \<le> u2 \<and> r1' \<le> r2'"
  proof (cases "upto s = 0 \<or> r1 \<le> of_int c")
    case True
    note a1 = all1 [OF True]
    show ?thesis
    proof (cases "upto s = 0 \<or> r2 \<le> of_int c")
      case True
      then show ?thesis using a1 all2 assms(4) by simp
    next
      case False
      then have b: "upto s \<noteq> 0" "of_int c < r2" by simp_all
      have r1c: "r1 \<le> of_int c" using True b(1) by simp
      have "u1 \<le> u2"
      proof (cases "0 < c")
        case True
        then have "fl (of_int c) = Fin u2" using cap2 [OF b]
          by (simp split: pyfloat.splits)
        then obtain a where "fl r1 = Fin a" "a \<le> u2"
          using fl_mono_fin [OF assms(3) r1c] by blast
        then show ?thesis using f1 a1 by simp
      next
        case False
        then have "(of_int c :: rat) \<le> 0" by simp
        then have "r1 = 0" using r1c assms(3) by linarith
        then show ?thesis using a1 s2(4) by simp
      qed
      then show ?thesis using a1 s2(6) by simp
    qed
  next
    case False
    then have b1: "upto s \<noteq> 0" "of_int c < r1" by simp_all
    then have b2: "of_int c < r2" using assms(4) by linarith
    have "Inr (Fin u1) = (Inr (Fin u2) :: py_error + pyfloat)"
      using trans [OF cap1 [OF b1, symmetric] cap2 [OF b1(1) b2]] .
    then have u: "u1 = u2" by simp
    have "fl (r1 - u1) = Fin r1'" "fl (r2 - u1) = Fin r2'"
      using s1(2) s2(2) u by (simp_all add: fsub_Fin)
    moreover have "0 \<le> r1 - u1" "r1 - u1 \<le> r2 - u1" using s1(5) assms(4) by simp_all
    ultimately have "r1' \<le> r2'" using fl_mono_fin [of "r1 - u1" "r2 - u1" r2'] by auto
    then show ?thesis using u by simp
  qed
  then show ?thesis using s1 s2 by blast
qed

lemma charge_cases:
  assumes "nonneg_finite q" "0 \<le> u"
  shows "fmul (Fin u) q = PInf \<or> (\<exists>c. fmul (Fin u) q = Fin c \<and> 0 \<le> c)"
proof -
  obtain a where a: "q = Fin a" "0 \<le> a" using assms(1) by (cases q) simp_all
  have "0 \<le> u * a" using assms(2) a(2) by simp
  then show ?thesis using fl_nonneg_cases [of "u * a"] a(1) by simp
qed

lemma slab_loop_inf:
  assumes "\<forall>s\<in>set slabs. nonneg_finite (rate s)" "is_double r" "0 \<le> r"
      and "slab_loop slabs (Fin r) PInf ds p = Inr (x, ds')"
  shows "x = PInf"
  using assms
proof (induction slabs arbitrary: r ds p)
  case Nil
  then show ?case by simp
next
  case (Cons s slabs)
  obtain u r' where st: "to_float (units_in_slab s (Fin r) p) = Inr (Fin u)"
      "fsub (Fin r) (Fin u) = Fin r'" "is_double r'" "0 \<le> u" "u \<le> r" "0 \<le> r'" "r' \<le> r"
    by (rule step_parts [OF Cons.prems(2,3), of s p])
  have q: "nonneg_finite (rate s)" using Cons.prems(1) by simp
  have e: "fadd PInf (fmul (Fin u) (rate s)) = PInf"
    using charge_cases [OF q st(4)] by auto
  obtain l where l: "slab_range s p = Inr l"
    using Cons.prems(4) st(1) by (auto simp add: Let_def split: sum.splits)
  have rest: "\<forall>s\<in>set slabs. nonneg_finite (rate s)" using Cons.prems(1) by simp
  show ?case
  proof (cases "r' \<le> 0")
    case True
    then show ?thesis using Cons.prems(4) st(1,2) l e by (simp add: Let_def)
  next
    case False
    then have "\<exists>ds1. slab_loop slabs (Fin r') PInf ds1 (upto s) = Inr (x, ds')"
      using Cons.prems(4) st(1,2) l e by (auto simp add: Let_def)
    then show ?thesis using Cons.IH [OF rest st(3,6)] by blast
  qed
qed

lemma energy_grows:
  assumes "\<forall>s\<in>set slabs. nonneg_finite (rate s)" "is_double r" "0 \<le> r"
      and "is_double e" "0 \<le> e"
      and "slab_loop slabs (Fin r) (Fin e) ds p = Inr (Fin E, ds')"
  shows "e \<le> E"
  using assms
proof (induction slabs arbitrary: r e ds p)
  case Nil
  then show ?case by simp
next
  case (Cons s slabs)
  obtain u r' where st: "to_float (units_in_slab s (Fin r) p) = Inr (Fin u)"
      "fsub (Fin r) (Fin u) = Fin r'" "is_double r'" "0 \<le> u" "u \<le> r" "0 \<le> r'" "r' \<le> r"
    by (rule step_parts [OF Cons.prems(2,3), of s p])
  have q: "nonneg_finite (rate s)" using Cons.prems(1) by simp
  have rest: "\<forall>s\<in>set slabs. nonneg_finite (rate s)" using Cons.prems(1) by simp
  obtain l where l: "slab_range s p = Inr l"
    using Cons.prems(6) st(1) by (auto simp add: Let_def split: sum.splits)
  define e1 where "e1 = fadd (Fin e) (fmul (Fin u) (rate s))"
  have run: "(if r' \<le> 0 then \<exists>ds1. Inr (e1, ds1) = (Inr (Fin E, ds') :: py_error + _)
             else \<exists>ds1. slab_loop slabs (Fin r') e1 ds1 (upto s) = Inr (Fin E, ds'))"
    using Cons.prems(6) st(1,2) l by (auto simp add: Let_def e1_def)
  have fin: "e1 \<noteq> PInf"
  proof
    assume i: "e1 = PInf"
    show False
    proof (cases "r' \<le> 0")
      case True
      then show ?thesis using run i by simp
    next
      case False
      then obtain ds1 where "slab_loop slabs (Fin r') PInf ds1 (upto s) = Inr (Fin E, ds')"
        using run i by auto
      from slab_loop_inf [OF rest st(3,6) this] show ?thesis by simp
    qed
  qed
  have "\<exists>e'. e1 = Fin e' \<and> e \<le> e' \<and> is_double e'"
  proof -
    from charge_cases [OF q st(4)] fin obtain c where c: "fmul (Fin u) (rate s) = Fin c" "0 \<le> c"
      by (auto simp add: e1_def)
    have e1: "e1 = fl (e + c)" using c(1) by (simp add: e1_def)
    have "0 \<le> e + c" using Cons.prems(5) c(2) by simp
    then obtain e' where e': "fl (e + c) = Fin e'"
      using fl_nonneg_cases [of "e + c"] fin e1 by auto
    have "e \<le> e + c" using c(2) by simp
    then obtain a where "fl e = Fin a" "a \<le> e'"
      using fl_mono_fin [OF Cons.prems(5) _ e'] by blast
    then have "e \<le> e'" using Cons.prems(4) by (simp add: is_double_def)
    then show ?thesis using e1 e' fl_is_double [OF e'] by simp
  qed
  then obtain e' where e': "e1 = Fin e'" "e \<le> e'" "is_double e'" by blast
  have e'0: "0 \<le> e'" using e'(2) Cons.prems(5) by simp
  show ?case
  proof (cases "r' \<le> 0")
    case True
    then show ?thesis using run e' by simp
  next
    case False
    then obtain ds1 where "slab_loop slabs (Fin r') (Fin e') ds1 (upto s) = Inr (Fin E, ds')"
      using run e'(1) by auto
    from Cons.IH [OF rest st(3,6) e'(3) e'0 this] e'(2) show ?thesis by simp
  qed
qed

lemma slab_loop_mono:
  assumes "\<forall>s\<in>set slabs. nonneg_finite (rate s)"
      and "is_double r1" "is_double r2" "0 \<le> r1" "r1 \<le> r2"
      and "is_double e2" "0 \<le> e1" "e1 \<le> e2"
      and "slab_loop slabs (Fin r2) (Fin e2) ds2 p = Inr (Fin E2, ds2')"
  shows "\<exists>E1 ds1'. slab_loop slabs (Fin r1) (Fin e1) ds1 p = Inr (Fin E1, ds1')
           \<and> 0 \<le> E1 \<and> E1 \<le> E2"
  using assms
proof (induction slabs arbitrary: r1 r2 e1 e2 ds1 ds2 p)
  case Nil
  then show ?case by simp
next
  case (Cons s slabs)
  obtain u1 r1' u2 r2' where st:
      "to_float (units_in_slab s (Fin r1) p) = Inr (Fin u1)"
      "fsub (Fin r1) (Fin u1) = Fin r1'" "is_double r1'"
      "to_float (units_in_slab s (Fin r2) p) = Inr (Fin u2)"
      "fsub (Fin r2) (Fin u2) = Fin r2'" "is_double r2'"
      "0 \<le> u1" "u1 \<le> u2" "0 \<le> r1'" "r1' \<le> r2'"
    using step_mono [OF Cons.prems(2,3,4,5), of s p] by blast
  have q: "nonneg_finite (rate s)" using Cons.prems(1) by simp
  have rest: "\<forall>s\<in>set slabs. nonneg_finite (rate s)" using Cons.prems(1) by simp
  have r2: "0 \<le> r2" "0 \<le> r2'" "0 \<le> u2" "0 \<le> e2"
    using Cons.prems(4,5,7,8) st(7,8,9,10) by simp_all
  obtain l where l: "slab_range s p = Inr l"
    using Cons.prems(9) st(4) by (auto simp add: Let_def split: sum.splits)
  define x2 where "x2 = fadd (Fin e2) (fmul (Fin u2) (rate s))"
  define x1 where "x1 = fadd (Fin e1) (fmul (Fin u1) (rate s))"
  have run2: "(if r2' \<le> 0 then \<exists>ds. Inr (x2, ds) = (Inr (Fin E2, ds2') :: py_error + _)
              else \<exists>ds. slab_loop slabs (Fin r2') x2 ds (upto s) = Inr (Fin E2, ds2'))"
    using Cons.prems(9) st(4,5) l by (auto simp add: Let_def x2_def)
  have run1: "slab_loop (s # slabs) (Fin r1) (Fin e1) ds1 p =
                (if r1' \<le> 0
                 then Inr (x1, ds1 @ [\<lparr>det_slab_range = l,
                        det_units = units_in_slab s (Fin r1) p, det_rate = rate s,
                        det_charge = round2 (fmul (Fin u1) (rate s))\<rparr>])
                 else slab_loop slabs (Fin r1') x1
                        (ds1 @ [\<lparr>det_slab_range = l,
                           det_units = units_in_slab s (Fin r1) p, det_rate = rate s,
                           det_charge = round2 (fmul (Fin u1) (rate s))\<rparr>]) (upto s))"
    using st(1,2) l by (simp add: Let_def x1_def)
  have fin2: "x2 \<noteq> PInf"
  proof
    assume i: "x2 = PInf"
    show False
    proof (cases "r2' \<le> 0")
      case True
      then show ?thesis using run2 i by simp
    next
      case False
      then obtain ds where "slab_loop slabs (Fin r2') PInf ds (upto s) = Inr (Fin E2, ds2')"
        using run2 i by auto
      from slab_loop_inf [OF rest st(6) r2(2) this] show ?thesis by simp
    qed
  qed
  from charge_cases [OF q r2(3)] fin2 obtain c2 where c2: "fmul (Fin u2) (rate s) = Fin c2"
      "0 \<le> c2"
    by (auto simp add: x2_def)
  have "finite_float (fmul (Fin u2) (rate s))" using c2(1) by simp
  moreover have "nonneg_le (Fin u1) (Fin u2)" using st(7,8) by simp
  moreover have "nonneg_le (rate s) (rate s)" using q by (cases "rate s") simp_all
  ultimately have "nonneg_le (fmul (Fin u1) (rate s)) (fmul (Fin u2) (rate s))"
    by (intro fmul_mono)
  then obtain c1 where c1: "fmul (Fin u1) (rate s) = Fin c1" "0 \<le> c1" "c1 \<le> c2"
    using c2(1) unfolding nonneg_le_iff by auto
  have "0 \<le> e2 + c2" using r2(4) c2(2) by simp
  then obtain e2' where e2': "fl (e2 + c2) = Fin e2'"
    using fl_nonneg_cases [of "e2 + c2"] fin2 c2(1) by (auto simp add: x2_def)
  have x2: "x2 = Fin e2'" using c2(1) e2' by (simp add: x2_def)
  have "0 \<le> e1 + c1" "e1 + c1 \<le> e2 + c2" using Cons.prems(7,8) c1(2,3) by simp_all
  then obtain e1' where e1': "fl (e1 + c1) = Fin e1'" "0 \<le> e1'" "e1' \<le> e2'"
    using fl_mono_fin [of "e1 + c1" "e2 + c2" e2'] e2' by blast
  have x1: "x1 = Fin e1'" using c1(1) e1'(1) by (simp add: x1_def)
  have d2: "is_double e2'" by (rule fl_is_double [OF e2'])
  have e2'0: "0 \<le> e2'" using e1'(2,3) by simp
  have E2: "e2' \<le> E2"
  proof (cases "r2' \<le> 0")
    case True
    then show ?thesis using run2 x2 by simp
  next
    case False
    then obtain ds where "slab_loop slabs (Fin r2') (Fin e2') ds (upto s) = Inr (Fin E2, ds2')"
      using run2 x2 by auto
    from energy_grows [OF rest st(6) r2(2) d2 e2'0 this] show ?thesis .
  qed
  show ?case
  proof (cases "r1' \<le> 0")
    case True
    then show ?thesis unfolding run1 using x1 e1'(2,3) E2 by simp
  next
    case False
    then have n2: "\<not> r2' \<le> 0" using st(10) by simp
    then obtain ds where "slab_loop slabs (Fin r2') (Fin e2') ds (upto s) = Inr (Fin E2, ds2')"
      using run2 x2 by auto
    from Cons.IH [OF rest st(3,6,9,10) d2 e1'(2,3) this]
    show ?thesis unfolding run1 using False x1 by simp
  qed
qed

lemma bexp_2_1024: "bexp (2 ^ 1024) = 1024"
  using bexp_eq [of 1024 "2 ^ 1024"] by simp

lemma fl_overflow:
  assumes "2 ^ 1024 \<le> x"
  shows "fl x = PInf"
proof -
  have p: "(0::rat) < 2 ^ 1024" by (rule zero_less_power) simp
  then have x: "0 < x" using assms by (rule less_le_trans)
  have "bexp (2 ^ 1024) \<le> bexp x" using p assms by (rule bexp_mono)
  then have b: "1024 \<le> bexp x" unfolding bexp_2_1024 .
  then have "- 1022 < bexp x" by simp
  then have "2 powi (bexp x) \<le> rnd x" using x by (intro rnd_lower)
  moreover have "(2::rat) powi 1024 \<le> 2 powi (bexp x)" using b by (rule pow2_le_mono)
  moreover have "(2::rat) powi 1024 = 2 ^ 1024" by simp
  ultimately have "2 ^ 1024 \<le> rnd x" by linarith
  then show ?thesis using x by (simp add: fl_pos)
qed

lemma fl_2_1024: "fl (2 ^ 1024) = PInf"
  by (rule fl_overflow) simp

lemma fl_2_1023: "fl (2 ^ 1023) = Fin (2 ^ 1023)"
  using fl_eval [of "2 ^ 1023" 1023 "2 ^ 52"] by simp

lemma fl_2_1023_50: "fl (2 ^ 1023 + 50) = Fin (2 ^ 1023)"
  using fl_eval [of "2 ^ 1023 + 50" 1023 "2 ^ 52"] by simp

text \<open>
  C7 as stated fails, in two ways. With non-negative inputs: on one unbounded slab of rate
  \<open>2^1023\<close> with 0% duty and GST, 1 unit costs \<open>2^1023\<close>, but for 2 units the energy charge
  overflows to infinity, the duty \<^verbatim>\<open>0.0 * inf\<close> is NaN and so is the total, which is not
  greater than or equal to anything. With a negative duty percentage, which
  \<^verbatim>\<open>calculate_bill\<close> accepts: at rate 1, fixed charge 0 and duty \<open>-200%\<close>, 0 units cost 0
  and 1 unit costs \<open>-1\<close>.
\<close>

theorem total_monotone_counterexample:
  "map_sum id bill_total_bill
     (calculate_bill (Fin 1) [\<lparr>upto = 0, rate = Fin (2 ^ 1023)\<rparr>] (Fin 50) (Fin 0) (Fin 0))
     = Inr (Fin (2 ^ 1023))
   \<and> map_sum id bill_total_bill
     (calculate_bill (Fin 2) [\<lparr>upto = 0, rate = Fin (2 ^ 1023)\<rparr>] (Fin 50) (Fin 0) (Fin 0))
     = Inr NaN
   \<and> map_sum id bill_total_bill
     (calculate_bill (Fin 0) [\<lparr>upto = 0, rate = Fin 1\<rparr>] (Fin 0) (Fin (- 200)) (Fin 0))
     = Inr (Fin 0)
   \<and> map_sum id bill_total_bill
     (calculate_bill (Fin 1) [\<lparr>upto = 0, rate = Fin 1\<rparr>] (Fin 0) (Fin (- 200)) (Fin 0))
     = Inr (Fin (- 1))"
  using fl_2_1024 fl_2_1023 fl_2_1023_50
  by (simp add: bill_eval)

text \<open>
  C7 as the code behaves. Let the rates, the fixed charge and the two percentages be finite
  and not negative, and let \<open>u1 \<le> u2\<close> be non-negative float consumptions. If
  \<^verbatim>\<open>calculate_bill\<close> returns a bill with a finite total for \<open>u2\<close> (nothing overflowed), then
  it returns a bill for \<open>u1\<close> as well, whose total is finite, not negative and at most the
  total for \<open>u2\<close>.
\<close>

theorem total_monotone:
  assumes "is_double u1" "is_double u2" "0 \<le> u1" "u1 \<le> u2"
      and "\<forall>s\<in>set slabs. nonneg_finite (rate s)"
      and "nonneg_finite fixed_charge" "nonneg_finite duty_pct" "nonneg_finite gst_pct"
      and "calculate_bill (Fin u2) slabs fixed_charge duty_pct gst_pct = Inr b2"
      and "finite_float (bill_total_bill b2)"
  shows "\<exists>b1. calculate_bill (Fin u1) slabs fixed_charge duty_pct gst_pct = Inr b1
            \<and> nonneg_le (bill_total_bill b1) (bill_total_bill b2)"
proof -
  obtain x2 ds2 where l2: "slab_loop slabs (Fin u2) (Fin 0) [] 0 = Inr (x2, ds2)"
    using assms(9) by (auto simp add: calculate_bill_def split: sum.splits)
  define P where "P = fdiv_100 duty_pct"
  define Q where "Q = fdiv_100 gst_pct"
  define en where "en x = round2 x" for x
  define du where "du x = round2 (fmul P (en x))" for x
  define su where "su x = round2 (fadd (fadd (en x) (du x)) fixed_charge)" for x
  define gs where "gs x = round2 (fmul Q (su x))" for x
  define tot where "tot x = round2 (fadd (su x) (gs x))" for x
  have t2: "bill_total_bill b2 = tot x2"
    using assms(9) l2
    by (auto simp add: calculate_bill_def Let_def tot_def su_def gs_def du_def en_def P_def Q_def)
  then have f: "finite_float (tot x2)" using assms(10) by simp
  then have f1: "finite_float (fadd (su x2) (gs x2))" unfolding tot_def by (rule finite_round2)
  then have f2: "finite_float (su x2)" "finite_float (gs x2)" using finite_fadd by blast+
  have f3: "finite_float (fmul Q (su x2))" using f2(2) unfolding gs_def by (rule finite_round2)
  then have f4: "finite_float Q" using finite_fmul by blast
  have f5: "finite_float (fadd (fadd (en x2) (du x2)) fixed_charge)"
    using f2(1) unfolding su_def by (rule finite_round2)
  then have f6: "finite_float (fadd (en x2) (du x2))" using finite_fadd by blast
  then have f7: "finite_float (en x2)" "finite_float (du x2)" using finite_fadd by blast+
  have f8: "finite_float (fmul P (en x2))" using f7(2) unfolding du_def by (rule finite_round2)
  then have f9: "finite_float P" using finite_fmul by blast
  have f10: "finite_float x2" using f7(1) unfolding en_def by (rule finite_round2)
  then obtain E2 where E2: "x2 = Fin E2" unfolding finite_float_iff by blast
  obtain E1 ds1 where l1: "slab_loop slabs (Fin u1) (Fin 0) [] 0 = Inr (Fin E1, ds1)"
      and E1: "0 \<le> E1" "E1 \<le> E2"
    using slab_loop_mono [OF assms(5,1,2,3,4) _ _ _ l2 [unfolded E2], of 0 "[]"] by auto
  have PP: "nonneg_le P P" unfolding P_def
    using assms(7) f9 [unfolded P_def] by (rule fdiv_100_nonneg)
  have QQ: "nonneg_le Q Q" unfolding Q_def
    using assms(8) f4 [unfolded Q_def] by (rule fdiv_100_nonneg)
  have FF: "nonneg_le fixed_charge fixed_charge"
    using assms(6) by (cases fixed_charge) simp_all
  have m0: "nonneg_le (Fin E1) x2" using E1 E2 by simp
  have m1: "nonneg_le (en (Fin E1)) (en x2)"
    unfolding en_def using m0 f7(1) [unfolded en_def] by (rule round2_mono)
  have m2: "nonneg_le (fmul P (en (Fin E1))) (fmul P (en x2))"
    using PP m1 f8 by (rule fmul_mono)
  have m3: "nonneg_le (du (Fin E1)) (du x2)"
    unfolding du_def using m2 f7(2) [unfolded du_def] by (rule round2_mono)
  have m4: "nonneg_le (fadd (en (Fin E1)) (du (Fin E1))) (fadd (en x2) (du x2))"
    using m1 m3 f6 by (rule fadd_mono)
  have m5: "nonneg_le (fadd (fadd (en (Fin E1)) (du (Fin E1))) fixed_charge)
              (fadd (fadd (en x2) (du x2)) fixed_charge)"
    using m4 FF f5 by (rule fadd_mono)
  have m6: "nonneg_le (su (Fin E1)) (su x2)"
    unfolding su_def using m5 f2(1) [unfolded su_def] by (rule round2_mono)
  have m7: "nonneg_le (fmul Q (su (Fin E1))) (fmul Q (su x2))"
    using QQ m6 f3 by (rule fmul_mono)
  have m8: "nonneg_le (gs (Fin E1)) (gs x2)"
    unfolding gs_def using m7 f2(2) [unfolded gs_def] by (rule round2_mono)
  have m9: "nonneg_le (fadd (su (Fin E1)) (gs (Fin E1))) (fadd (su x2) (gs x2))"
    using m6 m8 f1 by (rule fadd_mono)
  have m10: "nonneg_le (tot (Fin E1)) (tot x2)"
    unfolding tot_def using m9 f [unfolded tot_def] by (rule round2_mono)
  obtain b1 where b1: "calculate_bill (Fin u1) slabs fixed_charge duty_pct gst_pct = Inr b1"
      "bill_total_bill b1 = tot (Fin E1)"
    using l1
    by (simp add: calculate_bill_def Let_def tot_def su_def gs_def du_def en_def P_def Q_def)
  show ?thesis using b1 m10 t2 by auto
qed

theorem total_monotone_witness:
  "is_double 50 \<and> is_double 250 \<and> (0::rat) \<le> 50 \<and> (50::rat) \<le> 250
   \<and> nonneg_finite (Fin 50) \<and> nonneg_finite (Fin 5)
   \<and> (\<exists>b1 b2. calculate_bill (Fin 50) default_slabs (Fin 50) (Fin 5) (Fin 5) = Inr b1
        \<and> calculate_bill (Fin 250) default_slabs (Fin 50) (Fin 5) (Fin 5) = Inr b2
        \<and> finite_float (bill_total_bill b2)
        \<and> nonneg_le (bill_total_bill b1) (bill_total_bill b2))"
proof -
  have d: "is_double 50" "is_double 250" by (simp_all add: is_double_def fl_numeral)
  have r: "\<forall>s\<in>set default_slabs. nonneg_finite (rate s)" by (simp add: default_slabs_def)
  have n: "nonneg_finite (Fin 50)" "nonneg_finite (Fin 5)" by simp_all
  obtain b2 where b2: "calculate_bill (Fin 250) default_slabs (Fin 50) (Fin 5) (Fin 5) = Inr b2"
      "finite_float (bill_total_bill b2)"
    using bill_250 by simp
  show ?thesis
    using total_monotone [OF d _ _ r n(1) n(2) n(2) b2] d n b2 by auto
qed

end
